theory Spec2Isabelle
  imports Complex_Main "HOL-Library.Multiset" "HOL-Library.Monad_Syntax"
begin

section \<open>Mesh data: index vectors, boxes and arrays\<close>

text \<open>
  The fluid container stores its moments in mesh arrays that are read and written
  through \<^verbatim>\<open>Array4\<close> views, \<^verbatim>\<open>arr(i,j,k)\<close> or \<^verbatim>\<open>arr(i,j,k,n)\<close>. A view is modelled as
  a function of the integer mesh index; all values are real numbers, so every
  statement below is about exact arithmetic and not about rounding.
\<close>

type_synonym IntVect = "int \<times> int \<times> int"
type_synonym Array3 = "int \<Rightarrow> int \<Rightarrow> int \<Rightarrow> real"
type_synonym Array4 = "int \<Rightarrow> int \<Rightarrow> int \<Rightarrow> nat \<Rightarrow> real"
type_synonym Mask = "int \<Rightarrow> int \<Rightarrow> int \<Rightarrow> bool"
type_synonym vec4 = "real \<times> real \<times> real \<times> real"

text \<open>
  An index box with its index type (0 is cell centred, 1 is nodal, per direction).
  \<open>grow\<close>, \<open>convert\<close> and \<open>contains\<close> are the operations of the mesh library the
  container calls: growing moves both ends outwards, converting the index type
  moves the upper end by the difference of the type flags.
\<close>

record Box =
  smallend :: IntVect
  bigend :: IntVect
  btype :: IntVect

definition grow :: "Box \<Rightarrow> int \<Rightarrow> Box" where
  "grow b n =
     (case (smallend b, bigend b) of ((lx, ly, lz), (hx, hy, hz)) \<Rightarrow>
        b\<lparr>smallend := (lx - n, ly - n, lz - n), bigend := (hx + n, hy + n, hz + n)\<rparr>)"

definition convert :: "Box \<Rightarrow> IntVect \<Rightarrow> Box" where
  "convert b typ =
     (case (bigend b, btype b, typ) of ((hx, hy, hz), (bx, by, bz), (tx, ty, tz)) \<Rightarrow>
        b\<lparr>bigend := (hx + (tx - bx), hy + (ty - by), hz + (tz - bz)), btype := typ\<rparr>)"

definition contains :: "Box \<Rightarrow> int \<Rightarrow> int \<Rightarrow> int \<Rightarrow> bool" where
  "contains b i j k =
     (case (smallend b, bigend b) of ((lx, ly, lz), (hx, hy, hz)) \<Rightarrow>
        lx \<le> i \<and> i \<le> hx \<and> ly \<le> j \<and> j \<le> hy \<and> lz \<le> k \<and> k \<le> hz)"

fun vc :: "vec4 \<Rightarrow> nat \<Rightarrow> real" where
  "vc (q0, q1, q2, q3) n = (if n = 0 then q0 else if n = 1 then q1 else if n = 2 then q2 else q3)"

section \<open>The slope limiter\<close>

text \<open>
  Modelled from the spec: the limiter \<^verbatim>\<open>ave(a,b)\<close> lives in \<^verbatim>\<open>MusclHancockUtils.H\<close>,
  which is not among the sources. The specification describes it as returning 0 when
  \<open>a\<close> and \<open>b\<close> have opposite sign or either is exactly 0, and otherwise a
  harmonic-mean-like blend that reduces to \<open>a\<close> when \<open>a = b\<close>: the harmonic mean.
\<close>

definition ave :: "real \<Rightarrow> real \<Rightarrow> real" where
  "ave a b = (if a * b \<le> 0 then 0 else 2 * a * b / (a + b))"

section \<open>The mesh level and the fluid state\<close>

text \<open>
  One mesh level: the time step \<^verbatim>\<open>dt\<close>, the cell sizes \<^verbatim>\<open>dx[0..2]\<close>, the speed of
  light and the valid box of the fluid arrays. \<^verbatim>\<open>AllocateLevelMFs\<close> makes every fluid
  array nodal with two guard nodes, so the valid box has index type \<open>(1,1,1)\<close>; its
  ends are the first and the last node of the patch.
\<close>

record Level =
  lev_dt :: real
  lev_dx0 :: real
  lev_dx1 :: real
  lev_dx2 :: real
  lev_clight :: real
  lev_lo :: IntVect
  lev_hi :: IntVect

definition validbox :: "Level \<Rightarrow> Box" where
  "validbox L = \<lparr>smallend = lev_lo L, bigend = lev_hi L, btype = (1, 1, 1)\<rparr>"

text \<open>The four conserved moments \<^verbatim>\<open>N[lev]\<close>, \<^verbatim>\<open>NU[lev][0..2]\<close> of one level.\<close>

record Fluid =
  N_arr :: Array3
  NUx_arr :: Array3
  NUy_arr :: Array3
  NUz_arr :: Array3

text \<open>
  Modelled from the spec: the boundary fill \<^verbatim>\<open>FillBoundary(field, width, periodicity)\<close>
  belongs to the mesh library and is not among the sources. The level is one patch
  that covers the periodic domain, so node \<open>hi\<close> is the periodic image of node \<open>lo\<close>
  and the period is \<open>hi - lo\<close> cells. The fill leaves the valid nodes alone and gives
  every guard node (halo width 2) the value of the valid node it is an image of;
  only the coordinates that lie outside the valid range are shifted.
\<close>

definition wrap :: "int \<Rightarrow> int \<Rightarrow> int \<Rightarrow> int" where
  "wrap lo hi i = lo + (i - lo) mod (hi - lo)"

definition periodic_image :: "int \<Rightarrow> int \<Rightarrow> int \<Rightarrow> int" where
  "periodic_image lo hi i = (if lo \<le> i \<and> i \<le> hi then i else wrap lo hi i)"

definition FillBoundary :: "Level \<Rightarrow> Array3 \<Rightarrow> Array3" where
  "FillBoundary L f =
     (\<lambda>i j k.
        if contains (grow (validbox L) 2) i j k \<and> \<not> contains (validbox L) i j k
        then (case (lev_lo L, lev_hi L) of ((lx, ly, lz), (hx, hy, hz)) \<Rightarrow>
                f (periodic_image lx hx i) (periodic_image ly hy j) (periodic_image lz hz k))
        else f i j k)"

text \<open>
  \<^verbatim>\<open>AllocateLevelMFs\<close> sets every entry of the four arrays to \<open>0.0\<close>. \<^verbatim>\<open>InitData\<close> then
  gives every node of the valid box the density \<open>n\<close> and the momentum density
  \<open>n u c\<close> of the injector functions at the position of the node, and fills the guard
  nodes. The injector functions \<^verbatim>\<open>getDensity\<close> and \<^verbatim>\<open>getBulkMomentum\<close> and the lower
  corner \<^verbatim>\<open>problo\<close> of the domain are arguments.
\<close>

definition AllocateLevelMFs :: Fluid where
  "AllocateLevelMFs = \<lparr>N_arr = (\<lambda>i j k. 0), NUx_arr = (\<lambda>i j k. 0),
                       NUy_arr = (\<lambda>i j k. 0), NUz_arr = (\<lambda>i j k. 0)\<rparr>"

definition InitData ::
  "Level \<Rightarrow> real \<times> real \<times> real \<Rightarrow> (real \<Rightarrow> real \<Rightarrow> real \<Rightarrow> real) \<Rightarrow>
   (real \<Rightarrow> real \<Rightarrow> real \<Rightarrow> real \<times> real \<times> real) \<Rightarrow> Fluid \<Rightarrow> Fluid" where
  "InitData L problo getDensity getBulkMomentum s =
     (let tile_box = validbox L;
          clight = lev_clight L;
          x = (\<lambda>i. fst problo + real_of_int i * lev_dx0 L);
          y = (\<lambda>j. fst (snd problo) + real_of_int j * lev_dx1 L);
          z = (\<lambda>k. snd (snd problo) + real_of_int k * lev_dx2 L);
          n = (\<lambda>i j k. getDensity (x i) (y j) (z k));
          u = (\<lambda>i j k. getBulkMomentum (x i) (y j) (z k))
      in \<lparr>N_arr = FillBoundary L (\<lambda>i j k.
             if contains tile_box i j k then n i j k else N_arr s i j k),
          NUx_arr = FillBoundary L (\<lambda>i j k.
             if contains tile_box i j k then n i j k * fst (u i j k) * clight
             else NUx_arr s i j k),
          NUy_arr = FillBoundary L (\<lambda>i j k.
             if contains tile_box i j k then n i j k * fst (snd (u i j k)) * clight
             else NUy_arr s i j k),
          NUz_arr = FillBoundary L (\<lambda>i j k.
             if contains tile_box i j k then n i j k * snd (snd (u i j k)) * clight
             else NUz_arr s i j k)\<rparr>)"

section \<open>Advection: the MUSCL-Hancock step\<close>

text \<open>
  The bulk momentum \<open>U = NU / N\<close> of a cell and its Lorentz factor. The source divides
  by \<open>N\<close> without a guard. At a node with \<open>N = 0\<close> it yields an infinity or a NaN, which
  the real numbers do not have (there the quotient below is 0): the model agrees with
  the source at the nodes with \<open>N \<noteq> 0\<close>, and a result that depends on the value of the
  quotient assumes a nonzero density.
\<close>

definition cell_U :: "Fluid \<Rightarrow> int \<Rightarrow> int \<Rightarrow> int \<Rightarrow> real \<times> real \<times> real" where
  "cell_U s i j k =
     (NUx_arr s i j k / N_arr s i j k,
      NUy_arr s i j k / N_arr s i j k,
      NUz_arr s i j k / N_arr s i j k)"

definition cell_gamma :: "real \<Rightarrow> real \<times> real \<times> real \<Rightarrow> real" where
  "cell_gamma clight U =
     (case U of (Ux, Uy, Uz) \<Rightarrow>
        let Uz_sq = Uz * Uz; Uy_sq = Uy * Uy; Ux_sq = Ux * Ux;
            c_sq = clight * clight
        in sqrt (1 + (Ux_sq + Uy_sq + Uz_sq) / c_sq))"

definition cell_V :: "Level \<Rightarrow> Fluid \<Rightarrow> int \<Rightarrow> int \<Rightarrow> int \<Rightarrow> real \<times> real \<times> real" where
  "cell_V L s i j k =
     (case cell_U s i j k of (Ux, Uy, Uz) \<Rightarrow>
        let gamma = cell_gamma (lev_clight L) (Ux, Uy, Uz)
        in (Ux / gamma, Uy / gamma, Uz / gamma))"

text \<open>
  The flux Jacobians of the three axes applied to the slopes, \<open>A\<^sub>x dQ\<^sub>x\<close>, \<open>A\<^sub>y dQ\<^sub>y\<close>
  and \<open>A\<^sub>z dQ\<^sub>z\<close>, entry by entry as the three-dimensional kernel computes them.
\<close>

definition AdQ_x :: "real \<Rightarrow> real \<Rightarrow> real \<times> real \<times> real \<Rightarrow> vec4 \<Rightarrow> vec4" where
  "AdQ_x clight gamma U dQ =
     (case (U, dQ) of ((Ux, Uy, Uz), (dQ0x, dQ1x, dQ2x, dQ3x)) \<Rightarrow>
        let Uz_sq = Uz * Uz; Uy_sq = Uy * Uy; Ux_sq = Ux * Ux;
            Uz_cubed = Uz_sq * Uz; Uy_cubed = Uy_sq * Uy; Ux_cubed = Ux_sq * Ux;
            c_sq = clight * clight;
            gamma_cubed = gamma * gamma * gamma;
            a = c_sq * gamma_cubed;
            A00x = (Ux * Uz_sq + Ux * Uy_sq + Ux_cubed) / a;
            A01x = (c_sq + Uz_sq + Uy_sq) / a;
            A02x = - (Ux * Uy) / a;
            A03x = - (Ux * Uz) / a;
            A10x = - Ux_sq / gamma_cubed;
            A11x = (2 * Ux * c_sq + 2 * Ux * Uz_sq + 2 * Ux * Uy_sq + Ux_cubed) / a;
            A12x = - (Ux_sq * Uy) / a;
            A13x = - (Ux_sq * Uz) / a;
            A20x = - (Ux * Uy) / gamma_cubed;
            A21x = (Uy * c_sq + Uy * Uz_sq + Uy_cubed) / a;
            A22x = (Ux * c_sq + Ux * Uz_sq + Ux_cubed) / a;
            A23x = - (Ux * Uy * Uz) / a;
            A30x = - (Ux * Uz) / gamma_cubed;
            A31x = (Uz * c_sq + Uz_cubed + Uy_sq * Uz) / a;
            A32x = - (Ux * Uy * Uz) / a;
            A33x = (Ux * c_sq + Ux * Uy_sq + Ux_cubed) / a;
            AdQ0x = A00x * dQ0x + A01x * dQ1x + A02x * dQ2x + A03x * dQ3x;
            AdQ1x = A10x * dQ0x + A11x * dQ1x + A12x * dQ2x + A13x * dQ3x;
            AdQ2x = A20x * dQ0x + A21x * dQ1x + A22x * dQ2x + A23x * dQ3x;
            AdQ3x = A30x * dQ0x + A31x * dQ1x + A32x * dQ2x + A33x * dQ3x
        in (AdQ0x, AdQ1x, AdQ2x, AdQ3x))"

definition AdQ_y :: "real \<Rightarrow> real \<Rightarrow> real \<times> real \<times> real \<Rightarrow> vec4 \<Rightarrow> vec4" where
  "AdQ_y clight gamma U dQ =
     (case (U, dQ) of ((Ux, Uy, Uz), (dQ0y, dQ1y, dQ2y, dQ3y)) \<Rightarrow>
        let Uz_sq = Uz * Uz; Uy_sq = Uy * Uy; Ux_sq = Ux * Ux;
            Uz_cubed = Uz_sq * Uz; Uy_cubed = Uy_sq * Uy; Ux_cubed = Ux_sq * Ux;
            c_sq = clight * clight;
            gamma_cubed = gamma * gamma * gamma;
            a = c_sq * gamma_cubed;
            A00y = (Uy * Uz_sq + Uy_cubed + Ux_sq * Uy) / a;
            A01y = - (Ux * Uy) / a;
            A02y = (c_sq + Uz_sq + Ux_sq) / a;
            A03y = - (Uy * Uz) / a;
            A10y = - (Ux * Uy) / gamma_cubed;
            A11y = (Uy * c_sq + Uy * Uz_sq + Uy_cubed) / a;
            A12y = (Ux * c_sq + Ux * Uz_sq + Ux_cubed) / a;
            A13y = - (Ux * Uy * Uz) / a;
            A20y = - Uy_sq / gamma_cubed;
            A21y = - (Ux * Uy_sq) / a;
            A22y = (2 * Uy * c_sq + 2 * Uy * Uz_sq + Uy_cubed + 2 * Ux_sq * Uy) / a;
            A23y = - (Uy_sq * Uz) / a;
            A30y = - (Uy * Uz) / gamma_cubed;
            A31y = - (Ux * Uy * Uz) / a;
            A32y = (Uz * c_sq + Uz_cubed + Ux_sq * Uz) / a;
            A33y = (Uy * c_sq + Uy_cubed + Ux_sq * Uy) / a;
            AdQ0y = A00y * dQ0y + A01y * dQ1y + A02y * dQ2y + A03y * dQ3y;
            AdQ1y = A10y * dQ0y + A11y * dQ1y + A12y * dQ2y + A13y * dQ3y;
            AdQ2y = A20y * dQ0y + A21y * dQ1y + A22y * dQ2y + A23y * dQ3y;
            AdQ3y = A30y * dQ0y + A31y * dQ1y + A32y * dQ2y + A33y * dQ3y
        in (AdQ0y, AdQ1y, AdQ2y, AdQ3y))"

definition AdQ_z :: "real \<Rightarrow> real \<Rightarrow> real \<times> real \<times> real \<Rightarrow> vec4 \<Rightarrow> vec4" where
  "AdQ_z clight gamma U dQ =
     (case (U, dQ) of ((Ux, Uy, Uz), (dQ0z, dQ1z, dQ2z, dQ3z)) \<Rightarrow>
        let Uz_sq = Uz * Uz; Uy_sq = Uy * Uy; Ux_sq = Ux * Ux;
            Uz_cubed = Uz_sq * Uz; Uy_cubed = Uy_sq * Uy; Ux_cubed = Ux_sq * Ux;
            c_sq = clight * clight;
            gamma_cubed = gamma * gamma * gamma;
            a = c_sq * gamma_cubed;
            A00z = (Uz_cubed + (Uy_sq + Ux_sq) * Uz) / a;
            A01z = - (Ux * Uz) / a;
            A02z = - (Uy * Uz) / a;
            A03z = (c_sq + Uy_sq + Ux_sq) / a;
            A10z = - (Ux * Uz) / gamma_cubed;
            A11z = (Uz * c_sq + Uz_cubed + Uy_sq * Uz) / a;
            A12z = - (Ux * Uy * Uz) / a;
            A13z = (Ux * c_sq + Ux * Uy_sq + Ux_cubed) / a;
            A20z = - (Uy * Uz) / gamma_cubed;
            A21z = - (Ux * Uy * Uz) / a;
            A22z = (Uz * c_sq + Uz_cubed + Ux_sq * Uz) / a;
            A23z = (Uy * c_sq + Uy_cubed + Ux_sq * Uy) / a;
            A30z = - Uz_sq / gamma_cubed;
            A31z = - (Ux * Uz_sq) / a;
            A32z = - (Uy * Uz_sq) / a;
            A33z = (2 * Uz * c_sq + Uz_cubed + (2 * Uy_sq + 2 * Ux_sq) * Uz) / a;
            AdQ0z = A00z * dQ0z + A01z * dQ1z + A02z * dQ2z + A03z * dQ3z;
            AdQ1z = A10z * dQ0z + A11z * dQ1z + A12z * dQ2z + A13z * dQ3z;
            AdQ2z = A20z * dQ0z + A21z * dQ1z + A22z * dQ2z + A23z * dQ3z;
            AdQ3z = A30z * dQ0z + A31z * dQ1z + A32z * dQ2z + A33z * dQ3z
        in (AdQ0z, AdQ1z, AdQ2z, AdQ3z))"

text \<open>The limited slopes of the four moments along each axis.\<close>

definition dQ_x :: "Fluid \<Rightarrow> int \<Rightarrow> int \<Rightarrow> int \<Rightarrow> vec4" where
  "dQ_x s i j k =
     (ave (N_arr s i j k - N_arr s (i - 1) j k) (N_arr s (i + 1) j k - N_arr s i j k),
      ave (NUx_arr s i j k - NUx_arr s (i - 1) j k) (NUx_arr s (i + 1) j k - NUx_arr s i j k),
      ave (NUy_arr s i j k - NUy_arr s (i - 1) j k) (NUy_arr s (i + 1) j k - NUy_arr s i j k),
      ave (NUz_arr s i j k - NUz_arr s (i - 1) j k) (NUz_arr s (i + 1) j k - NUz_arr s i j k))"

definition dQ_y :: "Fluid \<Rightarrow> int \<Rightarrow> int \<Rightarrow> int \<Rightarrow> vec4" where
  "dQ_y s i j k =
     (ave (N_arr s i j k - N_arr s i (j - 1) k) (N_arr s i (j + 1) k - N_arr s i j k),
      ave (NUx_arr s i j k - NUx_arr s i (j - 1) k) (NUx_arr s i (j + 1) k - NUx_arr s i j k),
      ave (NUy_arr s i j k - NUy_arr s i (j - 1) k) (NUy_arr s i (j + 1) k - NUy_arr s i j k),
      ave (NUz_arr s i j k - NUz_arr s i (j - 1) k) (NUz_arr s i (j + 1) k - NUz_arr s i j k))"

definition dQ_z :: "Fluid \<Rightarrow> int \<Rightarrow> int \<Rightarrow> int \<Rightarrow> vec4" where
  "dQ_z s i j k =
     (ave (N_arr s i j k - N_arr s i j (k - 1)) (N_arr s i j (k + 1) - N_arr s i j k),
      ave (NUx_arr s i j k - NUx_arr s i j (k - 1)) (NUx_arr s i j (k + 1) - NUx_arr s i j k),
      ave (NUy_arr s i j k - NUy_arr s i j (k - 1)) (NUy_arr s i j (k + 1) - NUy_arr s i j k),
      ave (NUz_arr s i j k - NUz_arr s i j (k - 1)) (NUz_arr s i j (k + 1) - NUz_arr s i j k))"

text \<open>The half-step prediction \<open>Q_tilde\<close> of a cell.\<close>

definition Q_tilde :: "Level \<Rightarrow> Fluid \<Rightarrow> int \<Rightarrow> int \<Rightarrow> int \<Rightarrow> vec4" where
  "Q_tilde L s i j k =
     (let cx_half = 0.5 * (lev_dt L / lev_dx0 L);
          cy_half = 0.5 * (lev_dt L / lev_dx1 L);
          cz_half = 0.5 * (lev_dt L / lev_dx2 L);
          U = cell_U s i j k;
          gamma = cell_gamma (lev_clight L) U
      in case (AdQ_x (lev_clight L) gamma U (dQ_x s i j k),
               AdQ_y (lev_clight L) gamma U (dQ_y s i j k),
               AdQ_z (lev_clight L) gamma U (dQ_z s i j k)) of
           ((AdQ0x, AdQ1x, AdQ2x, AdQ3x), (AdQ0y, AdQ1y, AdQ2y, AdQ3y),
            (AdQ0z, AdQ1z, AdQ2z, AdQ3z)) \<Rightarrow>
             (N_arr s i j k - cx_half * AdQ0x - cy_half * AdQ0y - cz_half * AdQ0z,
              NUx_arr s i j k - cx_half * AdQ1x - cy_half * AdQ1y - cz_half * AdQ1z,
              NUy_arr s i j k - cx_half * AdQ2x - cy_half * AdQ2y - cz_half * AdQ2z,
              NUz_arr s i j k - cx_half * AdQ3x - cy_half * AdQ3y - cz_half * AdQ3z))"

text \<open>
  The temporary arrays of one advection step. They are allocated without being
  initialised: the step receives their prior content as an argument and the
  results below hold whatever that content is.
\<close>

record Tmp =
  Vx :: Array3
  Vy :: Array3
  Vz :: Array3
  Q_minus_x :: Array4
  Q_plus_x :: Array4
  Q_minus_y :: Array4
  Q_plus_y :: Array4
  Q_minus_z :: Array4
  Q_plus_z :: Array4

text \<open>
  The first loop runs over the valid box grown by one node. Iteration \<open>(i,j,k)\<close>
  writes \<open>V(i,j,k)\<close>, \<open>Q_minus_x(i,j,k,n)\<close> when \<open>box_x\<close> contains \<open>(i,j,k)\<close> and
  \<open>Q_plus_x(i-1,j,k,n)\<close> when \<open>box_x\<close> contains \<open>(i-1,j,k)\<close>, and likewise for \<open>y\<close> and
  \<open>z\<close>. No entry is written by two iterations, so each array after the loop is given
  entry by entry: entry \<open>(i,j,k)\<close> of \<open>Q_plus_x\<close> comes from iteration \<open>(i+1,j,k)\<close>.
\<close>

definition predict :: "Level \<Rightarrow> Fluid \<Rightarrow> Tmp \<Rightarrow> Tmp" where
  "predict L s t =
     (let box = grow (validbox L) 1;
          tile_box = grow (validbox L) 1;
          box_x = convert box (0, 1, 1);
          box_y = convert box (1, 0, 1);
          box_z = convert box (1, 1, 0)
      in \<lparr>Vx = (\<lambda>i j k. if contains tile_box i j k
                 then fst (cell_V L s i j k) else Vx t i j k),
          Vy = (\<lambda>i j k. if contains tile_box i j k
                 then fst (snd (cell_V L s i j k)) else Vy t i j k),
          Vz = (\<lambda>i j k. if contains tile_box i j k
                 then snd (snd (cell_V L s i j k)) else Vz t i j k),
          Q_minus_x = (\<lambda>i j k n.
             if contains tile_box i j k \<and> contains box_x i j k \<and> n < 4
             then vc (Q_tilde L s i j k) n + vc (dQ_x s i j k) n / 2
             else Q_minus_x t i j k n),
          Q_plus_x = (\<lambda>i j k n.
             if contains tile_box (i + 1) j k \<and> contains box_x i j k \<and> n < 4
             then vc (Q_tilde L s (i + 1) j k) n - vc (dQ_x s (i + 1) j k) n / 2
             else Q_plus_x t i j k n),
          Q_minus_y = (\<lambda>i j k n.
             if contains tile_box i j k \<and> contains box_y i j k \<and> n < 4
             then vc (Q_tilde L s i j k) n + vc (dQ_y s i j k) n / 2
             else Q_minus_y t i j k n),
          Q_plus_y = (\<lambda>i j k n.
             if contains tile_box i (j + 1) k \<and> contains box_y i j k \<and> n < 4
             then vc (Q_tilde L s i (j + 1) k) n - vc (dQ_y s i (j + 1) k) n / 2
             else Q_plus_y t i j k n),
          Q_minus_z = (\<lambda>i j k n.
             if contains tile_box i j k \<and> contains box_z i j k \<and> n < 4
             then vc (Q_tilde L s i j k) n + vc (dQ_z s i j k) n / 2
             else Q_minus_z t i j k n),
          Q_plus_z = (\<lambda>i j k n.
             if contains tile_box i j (k + 1) \<and> contains box_z i j k \<and> n < 4
             then vc (Q_tilde L s i j (k + 1)) n - vc (dQ_z s i j (k + 1)) n / 2
             else Q_plus_z t i j k n)\<rparr>)"

text \<open>
  The second loop runs over the valid box. The numerical flux \<^verbatim>\<open>flux\<close> of
  \<^verbatim>\<open>MusclHancockUtils.H\<close> is not among the sources and is an argument of the model:
  every result below holds for any flux function.
\<close>

type_synonym Flux = "real \<Rightarrow> real \<Rightarrow> real \<Rightarrow> real \<Rightarrow> real"

text \<open>
  Modelled from the spec: for a concrete run the flux is taken as the upwind/averaging
  two-point flux of the specification, the average of the two advective fluxes
  \<open>V_left Q_minus\<close> and \<open>V_right Q_plus\<close> plus a dissipation by the larger of the two
  speeds. With equal speeds \<open>V \<ge> 0\<close> it is the upwind flux \<open>V Q_minus\<close>, and it vanishes
  when both speeds vanish.
\<close>

definition flux_model :: Flux where
  "flux_model q_minus q_plus v_left v_right =
     (let c = max \<bar>v_left\<bar> \<bar>v_right\<bar>
      in 0.5 * (v_left * q_minus + v_right * q_plus) + 0.5 * c * (q_minus - q_plus))"

definition F_minusx :: "Flux \<Rightarrow> Tmp \<Rightarrow> nat \<Rightarrow> int \<Rightarrow> int \<Rightarrow> int \<Rightarrow> real" where
  "F_minusx flux t n i j k =
     flux (Q_minus_x t (i - 1) j k n) (Q_plus_x t (i - 1) j k n) (Vx t (i - 1) j k) (Vx t i j k)"

definition F_plusx :: "Flux \<Rightarrow> Tmp \<Rightarrow> nat \<Rightarrow> int \<Rightarrow> int \<Rightarrow> int \<Rightarrow> real" where
  "F_plusx flux t n i j k =
     flux (Q_minus_x t i j k n) (Q_plus_x t i j k n) (Vx t i j k) (Vx t (i + 1) j k)"

definition F_minusy :: "Flux \<Rightarrow> Tmp \<Rightarrow> nat \<Rightarrow> int \<Rightarrow> int \<Rightarrow> int \<Rightarrow> real" where
  "F_minusy flux t n i j k =
     flux (Q_minus_y t i (j - 1) k n) (Q_plus_y t i (j - 1) k n) (Vy t i (j - 1) k) (Vy t i j k)"

definition F_plusy :: "Flux \<Rightarrow> Tmp \<Rightarrow> nat \<Rightarrow> int \<Rightarrow> int \<Rightarrow> int \<Rightarrow> real" where
  "F_plusy flux t n i j k =
     flux (Q_minus_y t i j k n) (Q_plus_y t i j k n) (Vy t i j k) (Vy t i (j + 1) k)"

definition F_minusz :: "Flux \<Rightarrow> Tmp \<Rightarrow> nat \<Rightarrow> int \<Rightarrow> int \<Rightarrow> int \<Rightarrow> real" where
  "F_minusz flux t n i j k =
     flux (Q_minus_z t i j (k - 1) n) (Q_plus_z t i j (k - 1) n) (Vz t i j (k - 1)) (Vz t i j k)"

definition F_plusz :: "Flux \<Rightarrow> Tmp \<Rightarrow> nat \<Rightarrow> int \<Rightarrow> int \<Rightarrow> int \<Rightarrow> real" where
  "F_plusz flux t n i j k =
     flux (Q_minus_z t i j k n) (Q_plus_z t i j k n) (Vz t i j k) (Vz t i j (k + 1))"

definition Q_update :: "Flux \<Rightarrow> Level \<Rightarrow> Tmp \<Rightarrow> nat \<Rightarrow> Array3 \<Rightarrow> Array3" where
  "Q_update flux L t n Q =
     (let cx = lev_dt L / lev_dx0 L;
          cy = lev_dt L / lev_dx1 L;
          cz = lev_dt L / lev_dx2 L;
          tile_box = validbox L
      in (\<lambda>i j k.
            if contains tile_box i j k
            then Q i j k - cx * (F_plusx flux t n i j k - F_minusx flux t n i j k)
                         - cy * (F_plusy flux t n i j k - F_minusy flux t n i j k)
                         - cz * (F_plusz flux t n i j k - F_minusz flux t n i j k)
            else Q i j k))"

definition update :: "Flux \<Rightarrow> Level \<Rightarrow> Tmp \<Rightarrow> Fluid \<Rightarrow> Fluid" where
  "update flux L t s =
     \<lparr>N_arr = Q_update flux L t 0 (N_arr s),
      NUx_arr = Q_update flux L t 1 (NUx_arr s),
      NUy_arr = Q_update flux L t 2 (NUy_arr s),
      NUz_arr = Q_update flux L t 3 (NUz_arr s)\<rparr>"

text \<open>One call: predict, update, then fill the guard nodes of the four moments.\<close>

definition AdvectivePush_Muscl :: "Flux \<Rightarrow> Level \<Rightarrow> Tmp \<Rightarrow> Fluid \<Rightarrow> Fluid" where
  "AdvectivePush_Muscl flux L t0 s =
     (let s' = update flux L (predict L s t0) s
      in \<lparr>N_arr = FillBoundary L (N_arr s'),
          NUx_arr = FillBoundary L (NUx_arr s'),
          NUy_arr = FillBoundary L (NUy_arr s'),
          NUz_arr = FillBoundary L (NUz_arr s')\<rparr>)"

section \<open>The momentum push\<close>

text \<open>
  Modelled from the spec: the resampling primitive \<^verbatim>\<open>ablastr::coarsen::sample::Interp\<close>
  is not among the sources. The specification describes a fixed averaging rule
  parameterised by the index types of the source (\<open>sf\<close>) and of the destination
  (\<open>sc\<close>) and by a coarsening ratio \<open>cr\<close> (1 in every call here): per direction the
  source is averaged over \<open>np\<close> points that start at \<open>idx_min\<close>; without coarsening
  that is one point where the two index types agree and two where they differ.
\<close>

definition Interp_np :: "int \<Rightarrow> int \<Rightarrow> int \<Rightarrow> int" where
  "Interp_np sf sc cr = (if cr = 1 then 1 + \<bar>sf - sc\<bar> else 2 - sf)"

definition Interp_idx_min :: "int \<Rightarrow> int \<Rightarrow> int \<Rightarrow> int \<Rightarrow> int" where
  "Interp_idx_min sf sc cr ic =
     (if cr = 1 then ic - sc * (1 - sf) else ic * cr + (cr div 2) * (1 - sc) - (1 - sf))"

definition Interp :: "Array3 \<Rightarrow> IntVect \<Rightarrow> IntVect \<Rightarrow> IntVect \<Rightarrow> int \<Rightarrow> int \<Rightarrow> int \<Rightarrow> real" where
  "Interp arr_src sf sc cr i j k =
     (case (sf, sc, cr) of ((sf0, sf1, sf2), (sc0, sc1, sc2), (cr0, cr1, cr2)) \<Rightarrow>
        let numx = Interp_np sf0 sc0 cr0;
            numy = Interp_np sf1 sc1 cr1;
            numz = Interp_np sf2 sc2 cr2;
            imin = Interp_idx_min sf0 sc0 cr0 i;
            jmin = Interp_idx_min sf1 sc1 cr1 j;
            kmin = Interp_idx_min sf2 sc2 cr2 k;
            wx = 1 / real_of_int numx;
            wy = 1 / real_of_int numy;
            wz = 1 / real_of_int numz
        in (\<Sum>kref = 0..<numz. \<Sum>jref = 0..<numy. \<Sum>iref = 0..<numx.
              wx * wy * wz * arr_src (imin + iref) (jmin + jref) (kmin + kref)))"

text \<open>
  Modelled from the spec: the pusher \<^verbatim>\<open>UpdateMomentumHigueraCary\<close> is not among the
  sources. The specification names the scheme (Higuera and Cary's relativistic
  integrator, advancing \<open>U\<close> under the Lorentz force of \<open>E\<close> and \<open>B\<close> over \<open>dt\<close> for a
  species of charge \<open>q\<close> and mass \<open>m\<close>); its steps are written out here.
\<close>

definition UpdateMomentumHigueraCary ::
  "real \<Rightarrow> real \<times> real \<times> real \<Rightarrow> real \<times> real \<times> real \<Rightarrow> real \<times> real \<times> real \<Rightarrow>
   real \<Rightarrow> real \<Rightarrow> real \<Rightarrow> real \<times> real \<times> real" where
  "UpdateMomentumHigueraCary clight u E B q m dt =
     (case (u, E, B) of ((ux, uy, uz), (E_x, E_y, E_z), (B_x, B_y, B_z)) \<Rightarrow>
        let qmt = 0.5 * q * dt / m;
            invclight = 1 / clight;
            invclightsq = 1 / (clight * clight);
            umx = ux + qmt * E_x;
            umy = uy + qmt * E_y;
            umz = uz + qmt * E_z;
            gamma_sq = 1 + (umx * umx + umy * umy + umz * umz) * invclightsq;
            betax = qmt * B_x;
            betay = qmt * B_y;
            betaz = qmt * B_z;
            betam = betax * betax + betay * betay + betaz * betaz;
            sigma = gamma_sq - betam;
            ust = (umx * betax + umy * betay + umz * betaz) * invclight;
            gamma_inv = 1 / sqrt (0.5 * (sigma + sqrt (sigma * sigma + 4 * (betam + ust * ust))));
            tx = gamma_inv * betax;
            ty = gamma_inv * betay;
            tz = gamma_inv * betaz;
            s = 1 / (1 + (tx * tx + ty * ty + tz * tz));
            umt = umx * tx + umy * ty + umz * tz;
            upx = s * (umx + umt * tx + umy * tz - umz * ty);
            upy = s * (umy + umt * ty + umz * tx - umx * tz);
            upz = s * (umz + umt * tz + umx * ty - umy * tx)
        in (upx + qmt * E_x + upy * tz - upz * ty,
            upy + qmt * E_y + upz * tx - upx * tz,
            upz + qmt * E_z + upx * ty - upy * tx))"

text \<open>The six field components with their index types.\<close>

record Fields =
  Ex_arr :: Array3
  Ey_arr :: Array3
  Ez_arr :: Array3
  Bx_arr :: Array3
  By_arr :: Array3
  Bz_arr :: Array3
  Ex_type :: IntVect
  Ey_type :: IntVect
  Ez_type :: IntVect
  Bx_type :: IntVect
  By_type :: IntVect
  Bz_type :: IntVect

text \<open>
  The momentum of a valid node after the push: the fields are resampled to the node,
  \<open>U\<close> is isolated from \<open>NU\<close> and pushed.
\<close>

definition pushed_U :: "Level \<Rightarrow> real \<Rightarrow> real \<Rightarrow> Fields \<Rightarrow> Fluid \<Rightarrow> int \<Rightarrow> int \<Rightarrow> int \<Rightarrow> real \<times> real \<times> real" where
  "pushed_U L q m F s i j k =
     (let Nodal_type = (1, 1, 1);
          coarsening_ratio = (1, 1, 1);
          Ex_Nodal = Interp (Ex_arr F) (Ex_type F) Nodal_type coarsening_ratio i j k;
          Ey_Nodal = Interp (Ey_arr F) (Ey_type F) Nodal_type coarsening_ratio i j k;
          Ez_Nodal = Interp (Ez_arr F) (Ez_type F) Nodal_type coarsening_ratio i j k;
          Bx_Nodal = Interp (Bx_arr F) (Bx_type F) Nodal_type coarsening_ratio i j k;
          By_Nodal = Interp (By_arr F) (By_type F) Nodal_type coarsening_ratio i j k;
          Bz_Nodal = Interp (Bz_arr F) (Bz_type F) Nodal_type coarsening_ratio i j k;
          tmp_U = cell_U s i j k
      in UpdateMomentumHigueraCary (lev_clight L) tmp_U
           (Ex_Nodal, Ey_Nodal, Ez_Nodal) (Bx_Nodal, By_Nodal, Bz_Nodal) q m (lev_dt L))"

text \<open>
  \<^verbatim>\<open>GatherAndPush\<close>: over the valid box the three momentum densities are rewritten
  as \<open>N\<close> times the pushed \<open>U\<close>; then their guard nodes are filled. The density array
  is only read.
\<close>

definition GatherAndPush :: "Level \<Rightarrow> real \<Rightarrow> real \<Rightarrow> Fields \<Rightarrow> Fluid \<Rightarrow> Fluid" where
  "GatherAndPush L q m F s =
     (let tile_box = validbox L
      in s\<lparr>NUx_arr := FillBoundary L (\<lambda>i j k.
             if contains tile_box i j k
             then N_arr s i j k * fst (pushed_U L q m F s i j k) else NUx_arr s i j k),
           NUy_arr := FillBoundary L (\<lambda>i j k.
             if contains tile_box i j k
             then N_arr s i j k * fst (snd (pushed_U L q m F s i j k)) else NUy_arr s i j k),
           NUz_arr := FillBoundary L (\<lambda>i j k.
             if contains tile_box i j k
             then N_arr s i j k * snd (snd (pushed_U L q m F s i j k)) else NUz_arr s i j k)\<rparr>)"

section \<open>Deposition\<close>

text \<open>
  \<^verbatim>\<open>DepositCharge\<close>: over the valid box, \<^verbatim>\<open>rho(i,j,k) += q*N(i,j,k)\<close> where the owner
  mask of \<open>rho\<close> is set. The mask comes from the mesh library and is an argument.
\<close>

definition DepositCharge :: "Level \<Rightarrow> real \<Rightarrow> Mask \<Rightarrow> Fluid \<Rightarrow> Array3 \<Rightarrow> Array3" where
  "DepositCharge L q owner_mask_rho s rho =
     (let tile_box = validbox L
      in (\<lambda>i j k.
            if contains tile_box i j k \<and> owner_mask_rho i j k
            then rho i j k + q * N_arr s i j k
            else rho i j k))"

text \<open>The three current components with their index types and owner masks.\<close>

record Current =
  jx_arr :: Array3
  jy_arr :: Array3
  jz_arr :: Array3
  jx_type :: IntVect
  jy_type :: IntVect
  jz_type :: IntVect
  owner_mask_x :: Mask
  owner_mask_y :: Mask
  owner_mask_z :: Mask

text \<open>The Lorentz factor and the nodal current of the first deposition loop.\<close>

definition deposit_gamma :: "Level \<Rightarrow> Fluid \<Rightarrow> int \<Rightarrow> int \<Rightarrow> int \<Rightarrow> real" where
  "deposit_gamma L s i j k =
     (let inv_clight_sq = 1 / lev_clight L / lev_clight L
      in sqrt (N_arr s i j k * N_arr s i j k
               + (NUx_arr s i j k * NUx_arr s i j k + NUy_arr s i j k * NUy_arr s i j k
                  + NUz_arr s i j k * NUz_arr s i j k) * inv_clight_sq)
         / N_arr s i j k)"

text \<open>
  The temporary nodal currents have no guard nodes and are written on the valid box;
  elsewhere they keep their prior (uninitialised) content \<open>t0\<close>.
\<close>

definition tmp_j_fluid ::
  "Level \<Rightarrow> real \<Rightarrow> Array3 \<times> Array3 \<times> Array3 \<Rightarrow> Fluid \<Rightarrow> Array3 \<times> Array3 \<times> Array3" where
  "tmp_j_fluid L q t0 s =
     (case t0 of (tx0, ty0, tz0) \<Rightarrow>
        let tile_box = validbox L
        in ((\<lambda>i j k. if contains tile_box i j k
                then q * (NUx_arr s i j k / deposit_gamma L s i j k) else tx0 i j k),
            (\<lambda>i j k. if contains tile_box i j k
                then q * (NUy_arr s i j k / deposit_gamma L s i j k) else ty0 i j k),
            (\<lambda>i j k. if contains tile_box i j k
                then q * (NUz_arr s i j k / deposit_gamma L s i j k) else tz0 i j k)))"

text \<open>
  The second loop runs, for each component, over the valid box converted to the
  index type of that component, resamples the nodal current and adds it where the
  owner mask of the component is set.
\<close>

definition deposit_component ::
  "Level \<Rightarrow> Array3 \<Rightarrow> IntVect \<Rightarrow> Mask \<Rightarrow> Array3 \<Rightarrow> Array3" where
  "deposit_component L tmp_arr j_type owner_mask j_arr =
     (let tile_box = convert (validbox L) j_type;
          j_nodal_type = (1, 1, 1);
          coarsening_ratio = (1, 1, 1)
      in (\<lambda>i j k.
            if contains tile_box i j k \<and> owner_mask i j k
            then j_arr i j k + Interp tmp_arr j_nodal_type j_type coarsening_ratio i j k
            else j_arr i j k))"

definition DepositCurrent ::
  "Level \<Rightarrow> real \<Rightarrow> Array3 \<times> Array3 \<times> Array3 \<Rightarrow> Fluid \<Rightarrow> Current \<Rightarrow> Current" where
  "DepositCurrent L q t0 s J =
     (case tmp_j_fluid L q t0 s of (tmp_jx_fluid, tmp_jy_fluid, tmp_jz_fluid) \<Rightarrow>
        J\<lparr>jx_arr := deposit_component L tmp_jx_fluid (jx_type J) (owner_mask_x J) (jx_arr J),
          jy_arr := deposit_component L tmp_jy_fluid (jy_type J) (owner_mask_y J) (jy_arr J),
          jz_arr := deposit_component L tmp_jz_fluid (jz_type J) (owner_mask_z J) (jz_arr J)\<rparr>)"

section \<open>One time step\<close>

definition Evolve ::
  "Flux \<Rightarrow> Level \<Rightarrow> real \<Rightarrow> real \<Rightarrow> Fields \<Rightarrow> Tmp \<Rightarrow> Array3 \<times> Array3 \<times> Array3 \<Rightarrow>
   bool \<Rightarrow> Fluid \<times> Current \<Rightarrow> Fluid \<times> Current" where
  "Evolve flux L q m F t0 tj0 skip_deposition sJ =
     (case sJ of (s, J) \<Rightarrow>
        let s1 = GatherAndPush L q m F s;
            s2 = AdvectivePush_Muscl flux L t0 s1
        in (s2, if \<not> skip_deposition then DepositCurrent L q tj0 s2 J else J))"

section \<open>Formulas of the specification and sample data\<close>

text \<open>
  The two Lorentz factors as the specification writes them: the deposition factor
  \<open>sqrt (N\<^sup>2 + |NU|\<^sup>2 / c\<^sup>2) / N\<close> and the kinematic factor \<open>sqrt (1 + |U|\<^sup>2 / c\<^sup>2)\<close>.
\<close>

definition gamma_eff :: "real \<Rightarrow> real \<Rightarrow> real \<Rightarrow> real \<Rightarrow> real \<Rightarrow> real" where
  "gamma_eff c n nux nuy nuz = sqrt (n\<^sup>2 + (nux\<^sup>2 + nuy\<^sup>2 + nuz\<^sup>2) / c\<^sup>2) / n"

definition gamma_kin :: "real \<Rightarrow> real \<Rightarrow> real \<Rightarrow> real \<Rightarrow> real" where
  "gamma_kin c ux uy uz = sqrt (1 + (ux\<^sup>2 + uy\<^sup>2 + uz\<^sup>2) / c\<^sup>2)"

text \<open>A small level of \<open>2 \<times> 2 \<times> 2\<close> cells and a fluid state on it, for concrete instances.\<close>

definition L_demo :: Level where
  "L_demo = \<lparr>lev_dt = 1, lev_dx0 = 2, lev_dx1 = 2, lev_dx2 = 2, lev_clight = 1,
             lev_lo = (0, 0, 0), lev_hi = (2, 2, 2)\<rparr>"

definition s_demo :: Fluid where
  "s_demo = \<lparr>N_arr = (\<lambda>i j k. 3), NUx_arr = (\<lambda>i j k. 4),
             NUy_arr = (\<lambda>i j k. 0), NUz_arr = (\<lambda>i j k. 0)\<rparr>"

text \<open>
  The nodal current of the specification, \<open>j = q NU / gamma_eff\<close>, at every node, and
  the test that an index type has only the flags 0 (cell centred) and 1 (nodal).
\<close>

definition j_nodal :: "Level \<Rightarrow> real \<Rightarrow> Fluid \<Rightarrow> Array3 \<times> Array3 \<times> Array3" where
  "j_nodal L q s =
     ((\<lambda>i j k. q * (NUx_arr s i j k /
         gamma_eff (lev_clight L) (N_arr s i j k) (NUx_arr s i j k) (NUy_arr s i j k) (NUz_arr s i j k))),
      (\<lambda>i j k. q * (NUy_arr s i j k /
         gamma_eff (lev_clight L) (N_arr s i j k) (NUx_arr s i j k) (NUy_arr s i j k) (NUz_arr s i j k))),
      (\<lambda>i j k. q * (NUz_arr s i j k /
         gamma_eff (lev_clight L) (N_arr s i j k) (NUx_arr s i j k) (NUy_arr s i j k) (NUz_arr s i j k))))"

definition is_index_type :: "IntVect \<Rightarrow> bool" where
  "is_index_type t = (case t of (t0, t1, t2) \<Rightarrow>
     (t0 = 0 \<or> t0 = 1) \<and> (t1 = 0 \<or> t1 = 1) \<and> (t2 = 0 \<or> t2 = 1))"

definition F_demo :: Fields where
  "F_demo = \<lparr>Ex_arr = (\<lambda>i j k. 1), Ey_arr = (\<lambda>i j k. 0), Ez_arr = (\<lambda>i j k. 0),
             Bx_arr = (\<lambda>i j k. 0), By_arr = (\<lambda>i j k. 0), Bz_arr = (\<lambda>i j k. 2),
             Ex_type = (0, 1, 1), Ey_type = (1, 0, 1), Ez_type = (1, 1, 0),
             Bx_type = (1, 0, 0), By_type = (0, 1, 0), Bz_type = (0, 0, 1)\<rparr>"

definition J_demo :: Current where
  "J_demo = \<lparr>jx_arr = (\<lambda>i j k. 7), jy_arr = (\<lambda>i j k. 8), jz_arr = (\<lambda>i j k. 9),
             jx_type = (0, 1, 1), jy_type = (1, 0, 1), jz_type = (1, 1, 0),
             owner_mask_x = (\<lambda>i j k. j < 2 \<and> k < 2),
             owner_mask_y = (\<lambda>i j k. i < 2 \<and> k < 2),
             owner_mask_z = (\<lambda>i j k. i < 2 \<and> j < 2)\<rparr>"

text \<open>
  A patch of a level: the same level data with another valid box. Two patches and the
  undivided patch that covers both are used to state that nothing is deposited twice.
\<close>

definition patch :: "Level \<Rightarrow> IntVect \<Rightarrow> IntVect \<Rightarrow> Level" where
  "patch L lo hi = L\<lparr>lev_lo := lo, lev_hi := hi\<rparr>"

definition tj_demo :: "Array3 \<times> Array3 \<times> Array3" where
  "tj_demo = ((\<lambda>i j k. 99), (\<lambda>i j k. 98), (\<lambda>i j k. 97))"

text \<open>
  The two predicted edge states that straddle the upper face of cell \<open>(i,j,k)\<close> along
  an axis, as the specification describes them (the state just inside the face comes
  from the cell itself, the state just outside from the next cell), and the flux
  through that face.
\<close>

definition edge_minus_x :: "Level \<Rightarrow> Fluid \<Rightarrow> nat \<Rightarrow> int \<Rightarrow> int \<Rightarrow> int \<Rightarrow> real" where
  "edge_minus_x L s n i j k = vc (Q_tilde L s i j k) n + vc (dQ_x s i j k) n / 2"

definition edge_plus_x :: "Level \<Rightarrow> Fluid \<Rightarrow> nat \<Rightarrow> int \<Rightarrow> int \<Rightarrow> int \<Rightarrow> real" where
  "edge_plus_x L s n i j k = vc (Q_tilde L s (i + 1) j k) n - vc (dQ_x s (i + 1) j k) n / 2"

definition edge_minus_y :: "Level \<Rightarrow> Fluid \<Rightarrow> nat \<Rightarrow> int \<Rightarrow> int \<Rightarrow> int \<Rightarrow> real" where
  "edge_minus_y L s n i j k = vc (Q_tilde L s i j k) n + vc (dQ_y s i j k) n / 2"

definition edge_plus_y :: "Level \<Rightarrow> Fluid \<Rightarrow> nat \<Rightarrow> int \<Rightarrow> int \<Rightarrow> int \<Rightarrow> real" where
  "edge_plus_y L s n i j k = vc (Q_tilde L s i (j + 1) k) n - vc (dQ_y s i (j + 1) k) n / 2"

definition edge_minus_z :: "Level \<Rightarrow> Fluid \<Rightarrow> nat \<Rightarrow> int \<Rightarrow> int \<Rightarrow> int \<Rightarrow> real" where
  "edge_minus_z L s n i j k = vc (Q_tilde L s i j k) n + vc (dQ_z s i j k) n / 2"

definition edge_plus_z :: "Level \<Rightarrow> Fluid \<Rightarrow> nat \<Rightarrow> int \<Rightarrow> int \<Rightarrow> int \<Rightarrow> real" where
  "edge_plus_z L s n i j k = vc (Q_tilde L s i j (k + 1)) n - vc (dQ_z s i j (k + 1)) n / 2"

definition face_flux_x :: "Flux \<Rightarrow> Level \<Rightarrow> Fluid \<Rightarrow> nat \<Rightarrow> int \<Rightarrow> int \<Rightarrow> int \<Rightarrow> real" where
  "face_flux_x flux L s n i j k =
     flux (edge_minus_x L s n i j k) (edge_plus_x L s n i j k)
          (fst (cell_V L s i j k)) (fst (cell_V L s (i + 1) j k))"

definition face_flux_y :: "Flux \<Rightarrow> Level \<Rightarrow> Fluid \<Rightarrow> nat \<Rightarrow> int \<Rightarrow> int \<Rightarrow> int \<Rightarrow> real" where
  "face_flux_y flux L s n i j k =
     flux (edge_minus_y L s n i j k) (edge_plus_y L s n i j k)
          (fst (snd (cell_V L s i j k))) (fst (snd (cell_V L s i (j + 1) k)))"

definition face_flux_z :: "Flux \<Rightarrow> Level \<Rightarrow> Fluid \<Rightarrow> nat \<Rightarrow> int \<Rightarrow> int \<Rightarrow> int \<Rightarrow> real" where
  "face_flux_z flux L s n i j k =
     flux (edge_minus_z L s n i j k) (edge_plus_z L s n i j k)
          (snd (snd (cell_V L s i j k))) (snd (snd (cell_V L s i j (k + 1))))"

text \<open>The finite-volume formula of the specification for moment \<open>n\<close> of a cell.\<close>

definition fv_update :: "Flux \<Rightarrow> Level \<Rightarrow> Fluid \<Rightarrow> nat \<Rightarrow> Array3 \<Rightarrow> Array3" where
  "fv_update flux L s n Q =
     (\<lambda>i j k. Q i j k
        - (lev_dt L / lev_dx0 L)
            * (face_flux_x flux L s n i j k - face_flux_x flux L s n (i - 1) j k)
        - (lev_dt L / lev_dx1 L)
            * (face_flux_y flux L s n i j k - face_flux_y flux L s n i (j - 1) k)
        - (lev_dt L / lev_dx2 L)
            * (face_flux_z flux L s n i j k - face_flux_z flux L s n i j (k - 1)))"

text \<open>
  The periodic domain. The owned nodes of the patch are one period, \<open>lo \<le> i < hi\<close> in
  each direction, and the total_owned of an array is its sum over them. A periodic array
  holds, at every node of the patch and of its halo of width 2, the value of the
  owned node that the node is an image of.
\<close>

definition total_owned :: "Level \<Rightarrow> Array3 \<Rightarrow> real" where
  "total_owned L f =
     (case (lev_lo L, lev_hi L) of ((lx, ly, lz), (hx, hy, hz)) \<Rightarrow>
        (\<Sum>i = lx..<hx. \<Sum>j = ly..<hy. \<Sum>k = lz..<hz. f i j k))"

definition periodic_halo :: "Level \<Rightarrow> Array3 \<Rightarrow> bool" where
  "periodic_halo L f =
     (case (lev_lo L, lev_hi L) of ((lx, ly, lz), (hx, hy, hz)) \<Rightarrow>
        (\<forall>i \<in> {lx - 2..hx + 2}. \<forall>j \<in> {ly - 2..hy + 2}. \<forall>k \<in> {lz - 2..hz + 2}.
           f i j k = f (wrap lx hx i) (wrap ly hy j) (wrap lz hz k)))"

definition periodic_state :: "Level \<Rightarrow> Fluid \<Rightarrow> bool" where
  "periodic_state L s =
     (periodic_halo L (N_arr s) \<and> periodic_halo L (NUx_arr s) \<and>
      periodic_halo L (NUy_arr s) \<and> periodic_halo L (NUz_arr s))"

text \<open>The uniform state at rest, the vanishing fields, and further sample data.\<close>

definition uniform_state :: Fluid where
  "uniform_state = \<lparr>N_arr = (\<lambda>i j k. 1), NUx_arr = (\<lambda>i j k. 0),
                    NUy_arr = (\<lambda>i j k. 0), NUz_arr = (\<lambda>i j k. 0)\<rparr>"

definition zero_fields :: "Fields \<Rightarrow> bool" where
  "zero_fields F =
     (Ex_arr F = (\<lambda>i j k. 0) \<and> Ey_arr F = (\<lambda>i j k. 0) \<and> Ez_arr F = (\<lambda>i j k. 0) \<and>
      Bx_arr F = (\<lambda>i j k. 0) \<and> By_arr F = (\<lambda>i j k. 0) \<and> Bz_arr F = (\<lambda>i j k. 0))"

definition F_zero :: Fields where
  "F_zero = \<lparr>Ex_arr = (\<lambda>i j k. 0), Ey_arr = (\<lambda>i j k. 0), Ez_arr = (\<lambda>i j k. 0),
             Bx_arr = (\<lambda>i j k. 0), By_arr = (\<lambda>i j k. 0), Bz_arr = (\<lambda>i j k. 0),
             Ex_type = (0, 1, 1), Ey_type = (1, 0, 1), Ez_type = (1, 1, 0),
             Bx_type = (1, 0, 0), By_type = (0, 1, 0), Bz_type = (0, 0, 1)\<rparr>"

definition t_demo :: Tmp where
  "t_demo = \<lparr>Vx = (\<lambda>i j k. 11), Vy = (\<lambda>i j k. 12), Vz = (\<lambda>i j k. 13),
             Q_minus_x = (\<lambda>i j k n. 21), Q_plus_x = (\<lambda>i j k n. 22),
             Q_minus_y = (\<lambda>i j k n. 23), Q_plus_y = (\<lambda>i j k n. 24),
             Q_minus_z = (\<lambda>i j k n. 25), Q_plus_z = (\<lambda>i j k n. 26)\<rparr>"

definition flux_demo :: Flux where
  "flux_demo q_minus q_plus v_left v_right = (v_left * q_minus + v_right * q_plus) / 2"

definition s_wave :: Fluid where
  "s_wave = \<lparr>N_arr = (\<lambda>i j k. 2 + real_of_int (i mod 2)),
             NUx_arr = (\<lambda>i j k. 1 + real_of_int (j mod 2)),
             NUy_arr = (\<lambda>i j k. 0),
             NUz_arr = (\<lambda>i j k. real_of_int (k mod 2))\<rparr>"

text \<open>
  The density must not vanish where the advection step divides by it: on the valid
  box grown by one node.
\<close>

definition nonzero_density :: "Level \<Rightarrow> Fluid \<Rightarrow> bool" where
  "nonzero_density L s =
     (\<forall>i j k. contains (grow (validbox L) 1) i j k \<longrightarrow> N_arr s i j k \<noteq> 0)"

text \<open>
  A level of \<open>3 \<times> 3 \<times> 3\<close> cells with \<open>dt = 1\<close>, \<open>dx = 12\<close> and \<open>c = 4\<close>, and two states on it
  that move along \<open>x\<close> with the bulk momentum \<open>u = 3/4\<close> (in units of \<open>c\<close>), so that
  \<open>gamma = 5/4\<close> and the velocity is \<open>12/5\<close> at every node. The state \<open>s_ramp\<close> is what
  \<open>InitData\<close> makes of the density profile \<open>1 + x / 12\<close>: the nodes \<open>0, 1, 2, 3\<close> of a row
  carry \<open>1, 2, 3, 4\<close>, so the last node of the patch differs from the first, whose
  periodic image it is. The state \<open>s_saw\<close> is periodic, with \<open>1, 2, 3\<close> on the nodes
  \<open>0, 1, 2\<close> of every period. The predicate \<open>profile_node\<close> says that a state has, at
  a node, the density \<open>g i\<close> and the momentum density \<open>(3 g i, 0, 0)\<close>.
\<close>

definition L_ramp :: Level where
  "L_ramp = \<lparr>lev_dt = 1, lev_dx0 = 12, lev_dx1 = 12, lev_dx2 = 12, lev_clight = 4,
             lev_lo = (0, 0, 0), lev_hi = (3, 3, 3)\<rparr>"

definition s_ramp :: Fluid where
  "s_ramp = InitData L_ramp (0, 0, 0) (\<lambda>x y z. 1 + x / 12) (\<lambda>x y z. (3 / 4, 0, 0))
              AllocateLevelMFs"

definition s_saw :: Fluid where
  "s_saw = \<lparr>N_arr = (\<lambda>i j k. 1 + real_of_int (i mod 3)),
            NUx_arr = (\<lambda>i j k. 3 * (1 + real_of_int (i mod 3))),
            NUy_arr = (\<lambda>i j k. 0), NUz_arr = (\<lambda>i j k. 0)\<rparr>"

definition profile_node :: "Fluid \<Rightarrow> (int \<Rightarrow> real) \<Rightarrow> int \<Rightarrow> int \<Rightarrow> int \<Rightarrow> bool" where
  "profile_node s g i j k =
     (N_arr s i j k = g i \<and> NUx_arr s i j k = 3 * g i \<and>
      NUy_arr s i j k = 0 \<and> NUz_arr s i j k = 0)"

definition ramp :: "int \<Rightarrow> real" where
  "ramp i = 1 + real_of_int (periodic_image 0 3 i)"

definition saw :: "int \<Rightarrow> real" where
  "saw i = 1 + real_of_int (i mod 3)"

text \<open>
  Two cells see the same data when an array agrees on the seven nodes of their
  stencils (the cell and its two neighbours along each axis).
\<close>

definition same_stencil :: "Array3 \<Rightarrow> int \<Rightarrow> int \<Rightarrow> int \<Rightarrow> int \<Rightarrow> int \<Rightarrow> int \<Rightarrow> bool" where
  "same_stencil f i j k i' j' k' =
     (f i j k = f i' j' k' \<and>
      f (i - 1) j k = f (i' - 1) j' k' \<and> f (i + 1) j k = f (i' + 1) j' k' \<and>
      f i (j - 1) k = f i' (j' - 1) k' \<and> f i (j + 1) k = f i' (j' + 1) k' \<and>
      f i j (k - 1) = f i' j' (k' - 1) \<and> f i j (k + 1) = f i' j' (k' + 1))"

definition same_cell :: "Fluid \<Rightarrow> int \<Rightarrow> int \<Rightarrow> int \<Rightarrow> int \<Rightarrow> int \<Rightarrow> int \<Rightarrow> bool" where
  "same_cell s i j k i' j' k' =
     (same_stencil (N_arr s) i j k i' j' k' \<and> same_stencil (NUx_arr s) i j k i' j' k' \<and>
      same_stencil (NUy_arr s) i j k i' j' k' \<and> same_stencil (NUz_arr s) i j k i' j' k')"

section \<open>Sorting an index array by key (heap sort)\<close>

text \<open>
  \<^verbatim>\<open>HeapSort::operator()\<close> sorts the entries \<open>start \<le> p < start + n\<close> of \<^verbatim>\<open>index_array\<close>
  by the keys \<^verbatim>\<open>bin_array[index_array[p]]\<close>. Both arrays are lists of integers. An
  access outside an array is an error: every read and write is checked and the
  result is \<open>None\<close> when an index is out of range. The key array is \<^verbatim>\<open>const\<close>: it is
  only read and never returned.

  The counters and positions are C++ \<^verbatim>\<open>int\<close> values, of 32 bits on the platforms of
  the program. Signed overflow is undefined in C++, so it is an error as well: the
  result of every addition, subtraction and multiplication on an \<^verbatim>\<open>int\<close> goes through
  \<open>int32\<close>, which is \<open>None\<close> when the value does not fit.
\<close>

definition INT_MAX :: int where
  "INT_MAX = 2147483647"

definition INT_MIN :: int where
  "INT_MIN = - 2147483648"

definition int32 :: "int \<Rightarrow> int option" where
  "int32 x = (if INT_MIN \<le> x \<and> x \<le> INT_MAX then Some x else None)"

definition rd :: "int list \<Rightarrow> int \<Rightarrow> int option" where
  "rd a i = (if 0 \<le> i \<and> i < int (length a) then Some (a ! nat i) else None)"

definition wr :: "int list \<Rightarrow> int \<Rightarrow> int \<Rightarrow> int list option" where
  "wr a i v = (if 0 \<le> i \<and> i < int (length a) then Some (a[nat i := v]) else None)"

text \<open>The key of position \<open>p\<close>, \<^verbatim>\<open>bin_array[index_array[p]]\<close>, and \<^verbatim>\<open>swap\<close> on two entries.\<close>

definition bin_at :: "int list \<Rightarrow> int list \<Rightarrow> int \<Rightarrow> int option" where
  "bin_at index_array bin_array p = do { v \<leftarrow> rd index_array p; rd bin_array v }"

definition swap :: "int list \<Rightarrow> int \<Rightarrow> int \<Rightarrow> int list option" where
  "swap index_array a b =
     do { va \<leftarrow> rd index_array a;
          temp \<leftarrow> rd index_array b;
          index_array1 \<leftarrow> wr index_array b va;
          wr index_array1 a temp }"

text \<open>
  The inner loop of the first \<^verbatim>\<open>for\<close> loop: the child at \<open>j\<close> moves up while it is bigger
  than its parent at \<open>(j - 1) / 2\<close>. The positions \<open>c = j + start\<close> and
  \<open>p = (j - 1) / 2 + start\<close> are computed as the condition of the \<^verbatim>\<open>while\<close> computes
  them. The division is only evaluated when \<open>j > 0\<close>, where truncation and rounding
  down agree.
\<close>

function sift_up :: "int list \<Rightarrow> int list \<Rightarrow> int \<Rightarrow> int \<Rightarrow> int list option" where
  "sift_up index_array bin_array start j =
     (if j > 0 then
        do { c \<leftarrow> int32 (j + start);
             j1 \<leftarrow> int32 (j - 1);
             p \<leftarrow> int32 (j1 div 2 + start);
             kc \<leftarrow> bin_at index_array bin_array c;
             kp \<leftarrow> bin_at index_array bin_array p;
             if kc > kp then
               do { index_array' \<leftarrow> swap index_array c p;
                    sift_up index_array' bin_array start (j1 div 2) }
             else Some index_array }
      else Some index_array)"
  by pat_completeness auto
termination
  by (relation "measure (\<lambda>(index_array, bin_array, start, j). nat j)")
     (auto simp: int32_def split: if_splits)

text \<open>The first \<^verbatim>\<open>for\<close> loop, \<open>i = 1, \<dots>, n - 1\<close>, with its increment \<^verbatim>\<open>i++\<close>.\<close>

function build_heap :: "int list \<Rightarrow> int list \<Rightarrow> int \<Rightarrow> int \<Rightarrow> int \<Rightarrow> int list option" where
  "build_heap index_array bin_array start n i =
     (if i < n then
        do { index_array' \<leftarrow> sift_up index_array bin_array start i;
             i' \<leftarrow> int32 (i + 1);
             build_heap index_array' bin_array start n i' }
      else Some index_array)"
  by pat_completeness auto
termination
  by (relation "measure (\<lambda>(index_array, bin_array, start, n, i). nat (n - i))")
     (auto simp: int32_def split: if_splits)

text \<open>
  The inner loop of the second \<^verbatim>\<open>for\<close> loop, \<^verbatim>\<open>while (j < i)\<close>: \<open>index\<close> becomes the
  child of \<open>j\<close> with the bigger key, the parent is swapped with it when it is smaller,
  and \<open>j\<close> moves on to \<open>index\<close>. Here \<open>index0\<close> is \<^verbatim>\<open>2 * j + 1\<close> and \<open>index1\<close> is the
  \<^verbatim>\<open>index + 1\<close> of the first condition, which is computed in every round, before the
  comparison with \<open>i\<close>. For \<open>j = -1\<close> the loop can go on for ever; hence a partial
  function, where not returning is \<open>None\<close> as well.
\<close>

partial_function (option) sift_down ::
  "int list \<Rightarrow> int list \<Rightarrow> int \<Rightarrow> int \<Rightarrow> int \<Rightarrow> int list option" where
  "sift_down index_array bin_array start i j =
     (if j < i then
        do { d \<leftarrow> int32 (2 * j);
             index0 \<leftarrow> int32 (d + 1);
             index1 \<leftarrow> int32 (index0 + 1);
             index \<leftarrow>
               (if index1 < i then
                  do { pl \<leftarrow> int32 (index0 + start);
                       pr \<leftarrow> int32 (index1 + start);
                       kl \<leftarrow> bin_at index_array bin_array pl;
                       kr \<leftarrow> bin_at index_array bin_array pr;
                       Some (if kl < kr then index1 else index0) }
                else Some index0);
             index_array' \<leftarrow>
               (if index < i then
                  do { pj \<leftarrow> int32 (j + start);
                       pc \<leftarrow> int32 (index + start);
                       kj \<leftarrow> bin_at index_array bin_array pj;
                       ki \<leftarrow> bin_at index_array bin_array pc;
                       if kj < ki then swap index_array pj pc
                       else Some index_array }
                else Some index_array);
             sift_down index_array' bin_array start i index }
      else Some index_array)"

text \<open>
  The second \<^verbatim>\<open>for\<close> loop, \<open>i = n - 1, \<dots>, 1\<close>, with its decrement \<^verbatim>\<open>i--\<close>, and the whole
  function.
\<close>

declare sift_down.simps [code]

function sort_heap :: "int list \<Rightarrow> int list \<Rightarrow> int \<Rightarrow> int \<Rightarrow> int list option" where
  "sort_heap index_array bin_array start i =
     (if i > 0 then
        do { e \<leftarrow> int32 (i + start);
             index_array1 \<leftarrow> swap index_array start e;
             index_array2 \<leftarrow> sift_down index_array1 bin_array start i 0;
             i' \<leftarrow> int32 (i - 1);
             sort_heap index_array2 bin_array start i' }
      else Some index_array)"
  by pat_completeness auto
termination
  by (relation "measure (\<lambda>(index_array, bin_array, start, i). nat i)")
     (auto simp: int32_def split: if_splits)

definition HeapSort :: "int list \<Rightarrow> int list \<Rightarrow> int \<Rightarrow> int \<Rightarrow> int list option" where
  "HeapSort index_array bin_array start n =
     do { index_array' \<leftarrow> build_heap index_array bin_array start n 1;
          i \<leftarrow> int32 (n - 1);
          sort_heap index_array' bin_array start i }"

text \<open>
  Notions for the proof. The keys of a segment \<open>sg\<close> of the index array, as a function
  of the position; the parent of a position; the heap property on the positions
  below \<open>m\<close>, and its two weakened forms that hold while an entry moves up or down.
\<close>

definition par :: "int \<Rightarrow> int" where
  "par p = (p - 1) div 2"

definition max_heap :: "(int \<Rightarrow> int) \<Rightarrow> int \<Rightarrow> bool" where
  "max_heap K m = (\<forall>p. 0 < p \<and> p < m \<longrightarrow> K p \<le> K (par p))"

definition up_inv :: "(int \<Rightarrow> int) \<Rightarrow> int \<Rightarrow> int \<Rightarrow> bool" where
  "up_inv K m j =
     ((\<forall>p. 0 < p \<and> p < m \<and> p \<noteq> j \<longrightarrow> K p \<le> K (par p)) \<and>
      (\<forall>p. 0 < p \<and> p < m \<and> par p = j \<and> 0 < j \<longrightarrow> K p \<le> K (par j)))"

definition down_inv :: "(int \<Rightarrow> int) \<Rightarrow> int \<Rightarrow> int \<Rightarrow> bool" where
  "down_inv K m j =
     ((\<forall>p. 0 < p \<and> p < m \<and> par p \<noteq> j \<longrightarrow> K p \<le> K (par p)) \<and>
      (\<forall>p. 0 < p \<and> p < m \<and> par p = j \<and> 0 < j \<longrightarrow> K p \<le> K (par j)))"

definition keys_below :: "(int \<Rightarrow> int) \<Rightarrow> int \<Rightarrow> int \<Rightarrow> bool" where
  "keys_below K m b = (\<forall>p. 0 \<le> p \<and> p < m \<longrightarrow> K p \<le> b)"

definition keyf :: "int list \<Rightarrow> int list \<Rightarrow> int \<Rightarrow> int" where
  "keyf sg bin_array p =
     (if 0 \<le> p \<and> p < int (length sg) then bin_array ! nat (sg ! nat p) else 0)"


definition valid_keys :: "int list \<Rightarrow> int list \<Rightarrow> bool" where
  "valid_keys sg bin_array = (\<forall>v \<in> set sg. 0 \<le> v \<and> v < int (length bin_array))"

definition seg :: "int list \<Rightarrow> int \<Rightarrow> int \<Rightarrow> int list" where
  "seg index_array start n = take (nat n) (drop (nat start) index_array)"

declare sift_up.simps [simp del] build_heap.simps [simp del] sort_heap.simps [simp del]

section \<open>Properties\<close>

lemma ave_same_sign_bound:
  fixes a b :: real
  assumes "0 < a * b"
  shows "\<bar>2 * a * b / (a + b)\<bar> \<le> 2 * max \<bar>a\<bar> \<bar>b\<bar>"
proof -
  from assms have sgn: "(0 < a \<and> 0 < b) \<or> (a < 0 \<and> b < 0)"
    by (auto simp: zero_less_mult_iff)
  then have s: "\<bar>a + b\<bar> = \<bar>a\<bar> + \<bar>b\<bar>" by auto
  from sgn have pos: "0 < \<bar>a\<bar> + \<bar>b\<bar>" by auto
  have "\<bar>a\<bar> * \<bar>b\<bar> \<le> \<bar>a\<bar> * (\<bar>a\<bar> + \<bar>b\<bar>)"
    by (rule mult_left_mono) auto
  then have "\<bar>a\<bar> * \<bar>b\<bar> / (\<bar>a\<bar> + \<bar>b\<bar>) \<le> \<bar>a\<bar>"
    using pos by (simp add: pos_divide_le_eq)
  then have "2 * (\<bar>a\<bar> * \<bar>b\<bar> / (\<bar>a\<bar> + \<bar>b\<bar>)) \<le> 2 * max \<bar>a\<bar> \<bar>b\<bar>"
    by linarith
  moreover have "\<bar>2 * a * b / (a + b)\<bar> = 2 * (\<bar>a\<bar> * \<bar>b\<bar> / (\<bar>a\<bar> + \<bar>b\<bar>))"
    by (simp add: abs_mult s)
  ultimately show ?thesis by simp
qed

text \<open>
  Claim C6 (limiter monotonicity). For all real \<open>a\<close>, \<open>b\<close>: if \<open>a * b \<le> 0\<close> then
  \<open>ave a b = 0\<close>; if \<open>a = b\<close> and \<open>a\<close> is nonzero then \<open>ave a b = a\<close>; and in every
  case the magnitude of \<open>ave a b\<close> is at most \<open>2 * max \<bar>a\<bar> \<bar>b\<bar>\<close>.
\<close>

theorem ave_limiter:
  "(a * b \<le> 0 \<longrightarrow> ave a b = 0) \<and>
   (a = b \<and> a \<noteq> 0 \<longrightarrow> ave a b = a) \<and>
   \<bar>ave a b\<bar> \<le> 2 * max \<bar>a\<bar> \<bar>b\<bar>"
proof (intro conjI impI)
  assume "a * b \<le> 0"
  then show "ave a b = 0" by (simp add: ave_def)
next
  assume h: "a = b \<and> a \<noteq> 0"
  then have "\<not> b * b \<le> 0" by (auto simp: mult_le_0_iff)
  with h show "ave a b = a" by (simp add: ave_def)
next
  show "\<bar>ave a b\<bar> \<le> 2 * max \<bar>a\<bar> \<bar>b\<bar>"
  proof (cases "a * b \<le> 0")
    case True
    then show ?thesis by (simp add: ave_def)
  next
    case False
    then have "0 < a * b" by simp
    from ave_same_sign_bound [OF this] False show ?thesis by (simp add: ave_def)
  qed
qed

theorem ave_limiter_witness:
  "((3::real) * (-2) \<le> 0 \<and> ave 3 (-2) = 0) \<and>
   ((5::real) = 5 \<and> (5::real) \<noteq> 0 \<and> ave 5 5 = 5) \<and>
   \<bar>ave 1 3\<bar> \<le> 2 * max \<bar>1::real\<bar> \<bar>3\<bar>"
  using ave_limiter [of 3 "-2"] ave_limiter [of 5 5] ave_limiter [of 1 3]
  by simp

lemma contains_validbox:
  "contains (validbox L) i j k \<longleftrightarrow>
     (case (lev_lo L, lev_hi L) of ((lx, ly, lz), (hx, hy, hz)) \<Rightarrow>
        lx \<le> i \<and> i \<le> hx \<and> ly \<le> j \<and> j \<le> hy \<and> lz \<le> k \<and> k \<le> hz)"
  by (simp add: contains_def validbox_def)

lemma FillBoundary_valid:
  "contains (validbox L) i j k \<Longrightarrow> FillBoundary L f i j k = f i j k"
  by (simp add: FillBoundary_def)

lemma deposit_gamma_eff:
  "deposit_gamma L s i j k =
     gamma_eff (lev_clight L) (N_arr s i j k) (NUx_arr s i j k) (NUy_arr s i j k) (NUz_arr s i j k)"
  by (simp add: deposit_gamma_def gamma_eff_def power2_eq_square divide_inverse mult.assoc)

lemma cell_gamma_kin:
  "cell_gamma c (ux, uy, uz) = gamma_kin c ux uy uz"
  by (simp add: cell_gamma_def gamma_kin_def power2_eq_square Let_def add.commute add.left_commute)

lemma gamma_eff_kin:
  assumes "0 < n"
  shows "gamma_eff c n nux nuy nuz = gamma_kin c (nux / n) (nuy / n) (nuz / n)"
proof -
  have n2: "n\<^sup>2 \<noteq> 0" using assms by simp
  have "sqrt (n\<^sup>2 + (nux\<^sup>2 + nuy\<^sup>2 + nuz\<^sup>2) / c\<^sup>2) / n
      = sqrt (n\<^sup>2 + (nux\<^sup>2 + nuy\<^sup>2 + nuz\<^sup>2) / c\<^sup>2) / sqrt (n\<^sup>2)"
    using assms by simp
  also have "\<dots> = sqrt ((n\<^sup>2 + (nux\<^sup>2 + nuy\<^sup>2 + nuz\<^sup>2) / c\<^sup>2) / n\<^sup>2)"
    by (simp add: real_sqrt_divide)
  also have "(n\<^sup>2 + (nux\<^sup>2 + nuy\<^sup>2 + nuz\<^sup>2) / c\<^sup>2) / n\<^sup>2
      = 1 + ((nux / n)\<^sup>2 + (nuy / n)\<^sup>2 + (nuz / n)\<^sup>2) / c\<^sup>2"
    using n2 by (simp add: add_divide_distrib power_divide mult.commute)
  finally show ?thesis by (simp add: gamma_eff_def gamma_kin_def)
qed

text \<open>
  Claim C9. At every node with \<open>N > 0\<close> the Lorentz factor of the current deposition,
  \<open>sqrt (N\<^sup>2 + |NU|\<^sup>2 / c\<^sup>2) / N\<close>, equals the kinematic factor \<open>sqrt (1 + |U|\<^sup>2 / c\<^sup>2)\<close> of
  \<open>U = NU / N\<close> that the advection stage computes, and the deposited nodal current
  \<open>q NU / gamma\<close> equals \<open>q N V\<close> with \<open>V = U / gamma\<close>.
\<close>

theorem gamma_formulas_agree:
  assumes "0 < N_arr s i j k"
  shows "deposit_gamma L s i j k = cell_gamma (lev_clight L) (cell_U s i j k) \<and>
         deposit_gamma L s i j k =
           gamma_eff (lev_clight L) (N_arr s i j k) (NUx_arr s i j k) (NUy_arr s i j k)
             (NUz_arr s i j k) \<and>
         cell_gamma (lev_clight L) (cell_U s i j k) =
           gamma_kin (lev_clight L) (NUx_arr s i j k / N_arr s i j k)
             (NUy_arr s i j k / N_arr s i j k) (NUz_arr s i j k / N_arr s i j k) \<and>
         q * (NUx_arr s i j k / deposit_gamma L s i j k) =
           q * N_arr s i j k * fst (cell_V L s i j k) \<and>
         q * (NUy_arr s i j k / deposit_gamma L s i j k) =
           q * N_arr s i j k * fst (snd (cell_V L s i j k)) \<and>
         q * (NUz_arr s i j k / deposit_gamma L s i j k) =
           q * N_arr s i j k * snd (snd (cell_V L s i j k))"
  using assms
  by (simp add: deposit_gamma_eff cell_U_def cell_V_def cell_gamma_kin gamma_eff_kin Let_def)

theorem gamma_formulas_agree_witness:
  "0 < N_arr s_demo 0 0 0 \<and>
   deposit_gamma L_demo s_demo 0 0 0 = cell_gamma (lev_clight L_demo) (cell_U s_demo 0 0 0) \<and>
   2 * (NUx_arr s_demo 0 0 0 / deposit_gamma L_demo s_demo 0 0 0) =
     2 * N_arr s_demo 0 0 0 * fst (cell_V L_demo s_demo 0 0 0)"
proof -
  have h: "0 < N_arr s_demo 0 0 0" by (simp add: s_demo_def)
  from gamma_formulas_agree [OF h, of L_demo 2] h show ?thesis by blast
qed

text \<open>
  Claim C7. At every node of the valid box, \<open>DepositCharge\<close> adds \<open>q N\<close> to the value
  \<open>rho\<close> already holds where the owner mask is set, and leaves \<open>rho\<close> unchanged where
  the mask is not set.
\<close>

theorem DepositCharge_masked:
  assumes "contains (validbox L) i j k"
  shows "(owner_mask_rho i j k \<longrightarrow>
            DepositCharge L q owner_mask_rho s rho i j k = rho i j k + q * N_arr s i j k) \<and>
         (\<not> owner_mask_rho i j k \<longrightarrow>
            DepositCharge L q owner_mask_rho s rho i j k = rho i j k)"
  using assms by (simp add: DepositCharge_def)

theorem DepositCharge_masked_witness:
  "contains (validbox L_demo) 1 1 1 \<and>
   DepositCharge L_demo 2 (\<lambda>i j k. i = 1) s_demo (\<lambda>i j k. 5) 1 1 1 = 5 + 2 * N_arr s_demo 1 1 1 \<and>
   contains (validbox L_demo) 2 1 1 \<and>
   DepositCharge L_demo 2 (\<lambda>i j k. i = 1) s_demo (\<lambda>i j k. 5) 2 1 1 = 5"
proof -
  have h1: "contains (validbox L_demo) 1 1 1" and h2: "contains (validbox L_demo) 2 1 1"
    by (simp_all add: contains_validbox L_demo_def)
  from DepositCharge_masked [OF h1, of "\<lambda>i j k. i = 1" 2 s_demo "\<lambda>i j k. 5"]
       DepositCharge_masked [OF h2, of "\<lambda>i j k. i = 1" 2 s_demo "\<lambda>i j k. 5"] h1 h2
  show ?thesis by simp
qed

lemma GatherAndPush_N: "N_arr (GatherAndPush L q m F s) = N_arr s"
  by (simp add: GatherAndPush_def Let_def)

lemma GatherAndPush_NU_valid:
  assumes "contains (validbox L) i j k"
  shows "NUx_arr (GatherAndPush L q m F s) i j k = N_arr s i j k * fst (pushed_U L q m F s i j k)"
    and "NUy_arr (GatherAndPush L q m F s) i j k = N_arr s i j k * fst (snd (pushed_U L q m F s i j k))"
    and "NUz_arr (GatherAndPush L q m F s) i j k = N_arr s i j k * snd (snd (pushed_U L q m F s i j k))"
  using assms by (simp_all add: GatherAndPush_def Let_def FillBoundary_valid)

text \<open>
  Claim C2. \<open>GatherAndPush\<close> leaves the density array exactly as it was, whatever the
  fields, charge, mass and time step; on the valid box the momentum densities become
  \<open>N\<close> times the pushed \<open>U\<close>, so that where \<open>N\<close> is nonzero the momentum (and with it the
  Lorentz factor) recomputed from the new state and the old density is the pushed one.
\<close>

theorem GatherAndPush_preserves_N:
  "N_arr (GatherAndPush L q m F s) = N_arr s \<and>
   (\<forall>i j k. contains (validbox L) i j k \<longrightarrow>
      NUx_arr (GatherAndPush L q m F s) i j k = N_arr s i j k * fst (pushed_U L q m F s i j k) \<and>
      NUy_arr (GatherAndPush L q m F s) i j k = N_arr s i j k * fst (snd (pushed_U L q m F s i j k)) \<and>
      NUz_arr (GatherAndPush L q m F s) i j k = N_arr s i j k * snd (snd (pushed_U L q m F s i j k))) \<and>
   (\<forall>i j k. contains (validbox L) i j k \<and> N_arr s i j k \<noteq> 0 \<longrightarrow>
      cell_U (GatherAndPush L q m F s) i j k = pushed_U L q m F s i j k \<and>
      cell_gamma (lev_clight L) (cell_U (GatherAndPush L q m F s) i j k) =
        cell_gamma (lev_clight L) (pushed_U L q m F s i j k))"
proof (intro conjI allI impI)
  fix i j k
  assume h: "contains (validbox L) i j k \<and> N_arr s i j k \<noteq> 0"
  then show u: "cell_U (GatherAndPush L q m F s) i j k = pushed_U L q m F s i j k"
    by (simp add: cell_U_def GatherAndPush_N GatherAndPush_NU_valid)
  then show "cell_gamma (lev_clight L) (cell_U (GatherAndPush L q m F s) i j k) =
        cell_gamma (lev_clight L) (pushed_U L q m F s i j k)" by simp
qed (simp_all add: GatherAndPush_N GatherAndPush_NU_valid)

theorem GatherAndPush_preserves_N_witness:
  "contains (validbox L_demo) 1 1 1 \<and> N_arr s_demo 1 1 1 \<noteq> 0 \<and>
   N_arr (GatherAndPush L_demo 1 2 F_demo s_demo) = N_arr s_demo \<and>
   NUx_arr (GatherAndPush L_demo 1 2 F_demo s_demo) 1 1 1 =
     N_arr s_demo 1 1 1 * fst (pushed_U L_demo 1 2 F_demo s_demo 1 1 1) \<and>
   cell_U (GatherAndPush L_demo 1 2 F_demo s_demo) 1 1 1 = pushed_U L_demo 1 2 F_demo s_demo 1 1 1"
proof -
  have h: "contains (validbox L_demo) 1 1 1 \<and> N_arr s_demo 1 1 1 \<noteq> 0"
    by (simp add: contains_validbox L_demo_def s_demo_def)
  from GatherAndPush_preserves_N [of L_demo 1 2 F_demo s_demo] h show ?thesis by blast
qed

lemma tmp_j_fluid_valid:
  assumes "contains (validbox L) i j k"
  shows "fst (tmp_j_fluid L q t0 s) i j k = fst (j_nodal L q s) i j k"
    and "fst (snd (tmp_j_fluid L q t0 s)) i j k = fst (snd (j_nodal L q s)) i j k"
    and "snd (snd (tmp_j_fluid L q t0 s)) i j k = snd (snd (j_nodal L q s)) i j k"
  using assms
  by (simp_all add: tmp_j_fluid_def j_nodal_def deposit_gamma_eff Let_def split: prod.splits)

lemma DepositCurrent_arrs:
  "jx_arr (DepositCurrent L q t0 s J) =
     deposit_component L (fst (tmp_j_fluid L q t0 s)) (jx_type J) (owner_mask_x J) (jx_arr J)"
  "jy_arr (DepositCurrent L q t0 s J) =
     deposit_component L (fst (snd (tmp_j_fluid L q t0 s))) (jy_type J) (owner_mask_y J) (jy_arr J)"
  "jz_arr (DepositCurrent L q t0 s J) =
     deposit_component L (snd (snd (tmp_j_fluid L q t0 s))) (jz_type J) (owner_mask_z J) (jz_arr J)"
  by (simp_all add: DepositCurrent_def split: prod.splits)

lemma deposit_component_apply:
  "deposit_component L tmp_arr j_type owner_mask j_arr i j k =
     (if contains (convert (validbox L) j_type) i j k \<and> owner_mask i j k
      then j_arr i j k + Interp tmp_arr (1, 1, 1) j_type (1, 1, 1) i j k
      else j_arr i j k)"
  by (simp add: deposit_component_def)

lemma Interp_nodal_cong:
  assumes t: "is_index_type j_type"
    and c: "contains (convert (validbox L) j_type) i j k"
    and eq: "\<And>i' j' k'. contains (validbox L) i' j' k' \<Longrightarrow> f i' j' k' = g i' j' k'"
  shows "Interp f (1, 1, 1) j_type (1, 1, 1) i j k = Interp g (1, 1, 1) j_type (1, 1, 1) i j k"
proof -
  obtain t0 t1 t2 where jt: "j_type = (t0, t1, t2)" by (cases j_type) auto
  obtain lx ly lz where lo: "lev_lo L = (lx, ly, lz)" by (cases "lev_lo L") auto
  obtain hx hy hz where hi: "lev_hi L = (hx, hy, hz)" by (cases "lev_hi L") auto
  from t jt have tt: "(t0 = 0 \<or> t0 = 1)" "(t1 = 0 \<or> t1 = 1)" "(t2 = 0 \<or> t2 = 1)"
    by (simp_all add: is_index_type_def)
  from c have cc: "lx \<le> i" "i \<le> hx + (t0 - 1)" "ly \<le> j" "j \<le> hy + (t1 - 1)"
      "lz \<le> k" "k \<le> hz + (t2 - 1)"
    by (simp_all add: contains_def convert_def validbox_def jt lo hi)
  have key: "f (Interp_idx_min 1 t0 1 i + iref) (Interp_idx_min 1 t1 1 j + jref)
               (Interp_idx_min 1 t2 1 k + kref)
           = g (Interp_idx_min 1 t0 1 i + iref) (Interp_idx_min 1 t1 1 j + jref)
               (Interp_idx_min 1 t2 1 k + kref)"
    if "iref \<in> {0..<Interp_np 1 t0 1}" "jref \<in> {0..<Interp_np 1 t1 1}"
       "kref \<in> {0..<Interp_np 1 t2 1}"
    for iref jref kref
  proof (rule eq)
    from that tt cc
    show "contains (validbox L) (Interp_idx_min 1 t0 1 i + iref)
            (Interp_idx_min 1 t1 1 j + jref) (Interp_idx_min 1 t2 1 k + kref)"
      by (auto simp: contains_validbox lo hi Interp_np_def Interp_idx_min_def)
  qed
  show ?thesis
    unfolding Interp_def jt prod.case Let_def
    by (intro sum.cong refl arg_cong2 [where f = "(*)"]) (rule key)
qed


text \<open>
  Claim C4. At every valid node with \<open>N > 0\<close> the nodal current that \<open>DepositCurrent\<close>
  computes is \<open>q NU / gamma_eff\<close> with \<open>gamma_eff = sqrt (N\<^sup>2 + |NU|\<^sup>2 / c\<^sup>2) / N\<close>; each
  component \<open>jx\<close>, \<open>jy\<close>, \<open>jz\<close> receives the resampled nodal current added to its prior
  value exactly at the points of its box where its owner mask is set, and is unchanged
  wherever its mask is not set.
\<close>

theorem DepositCurrent_formula:
  "(\<forall>i j k. contains (validbox L) i j k \<and> 0 < N_arr s i j k \<longrightarrow>
      fst (tmp_j_fluid L q t0 s) i j k =
        q * (NUx_arr s i j k / gamma_eff (lev_clight L) (N_arr s i j k) (NUx_arr s i j k)
               (NUy_arr s i j k) (NUz_arr s i j k)) \<and>
      fst (snd (tmp_j_fluid L q t0 s)) i j k =
        q * (NUy_arr s i j k / gamma_eff (lev_clight L) (N_arr s i j k) (NUx_arr s i j k)
               (NUy_arr s i j k) (NUz_arr s i j k)) \<and>
      snd (snd (tmp_j_fluid L q t0 s)) i j k =
        q * (NUz_arr s i j k / gamma_eff (lev_clight L) (N_arr s i j k) (NUx_arr s i j k)
               (NUy_arr s i j k) (NUz_arr s i j k))) \<and>
   (\<forall>i j k. jx_arr (DepositCurrent L q t0 s J) i j k =
      (if contains (convert (validbox L) (jx_type J)) i j k \<and> owner_mask_x J i j k
       then jx_arr J i j k
            + Interp (fst (tmp_j_fluid L q t0 s)) (1, 1, 1) (jx_type J) (1, 1, 1) i j k
       else jx_arr J i j k)) \<and>
   (\<forall>i j k. jy_arr (DepositCurrent L q t0 s J) i j k =
      (if contains (convert (validbox L) (jy_type J)) i j k \<and> owner_mask_y J i j k
       then jy_arr J i j k
            + Interp (fst (snd (tmp_j_fluid L q t0 s))) (1, 1, 1) (jy_type J) (1, 1, 1) i j k
       else jy_arr J i j k)) \<and>
   (\<forall>i j k. jz_arr (DepositCurrent L q t0 s J) i j k =
      (if contains (convert (validbox L) (jz_type J)) i j k \<and> owner_mask_z J i j k
       then jz_arr J i j k
            + Interp (snd (snd (tmp_j_fluid L q t0 s))) (1, 1, 1) (jz_type J) (1, 1, 1) i j k
       else jz_arr J i j k)) \<and>
   (\<forall>i j k. \<not> owner_mask_x J i j k \<longrightarrow>
      jx_arr (DepositCurrent L q t0 s J) i j k = jx_arr J i j k) \<and>
   (\<forall>i j k. \<not> owner_mask_y J i j k \<longrightarrow>
      jy_arr (DepositCurrent L q t0 s J) i j k = jy_arr J i j k) \<and>
   (\<forall>i j k. \<not> owner_mask_z J i j k \<longrightarrow>
      jz_arr (DepositCurrent L q t0 s J) i j k = jz_arr J i j k)"
  by (simp add: tmp_j_fluid_valid j_nodal_def DepositCurrent_arrs deposit_component_apply)

theorem DepositCurrent_formula_witness:
  "(contains (validbox L_demo) 1 1 1 \<and> 0 < N_arr s_demo 1 1 1) \<and>
   fst (tmp_j_fluid L_demo 2 tj_demo s_demo) 1 1 1 =
     2 * (NUx_arr s_demo 1 1 1 / gamma_eff (lev_clight L_demo) (N_arr s_demo 1 1 1)
            (NUx_arr s_demo 1 1 1) (NUy_arr s_demo 1 1 1) (NUz_arr s_demo 1 1 1)) \<and>
   \<not> owner_mask_x J_demo 1 2 1 \<and>
   jx_arr (DepositCurrent L_demo 2 tj_demo s_demo J_demo) 1 2 1 = jx_arr J_demo 1 2 1"
proof -
  have h: "contains (validbox L_demo) 1 1 1 \<and> 0 < N_arr s_demo 1 1 1"
    by (simp add: contains_validbox L_demo_def s_demo_def)
  have m: "\<not> owner_mask_x J_demo 1 2 1" by (simp add: J_demo_def)
  from DepositCurrent_formula [of L_demo s_demo 2 tj_demo J_demo] h m show ?thesis by meson
qed

lemma deposit_component_nodal:
  assumes "is_index_type j_type" and "contains (convert (validbox L) j_type) i j k"
  shows "deposit_component L (fst (tmp_j_fluid L q t0 s)) j_type owner_mask j_arr i j k =
           (if owner_mask i j k
            then j_arr i j k + Interp (fst (j_nodal L q s)) (1, 1, 1) j_type (1, 1, 1) i j k
            else j_arr i j k)"
    and "deposit_component L (fst (snd (tmp_j_fluid L q t0 s))) j_type owner_mask j_arr i j k =
           (if owner_mask i j k
            then j_arr i j k + Interp (fst (snd (j_nodal L q s))) (1, 1, 1) j_type (1, 1, 1) i j k
            else j_arr i j k)"
    and "deposit_component L (snd (snd (tmp_j_fluid L q t0 s))) j_type owner_mask j_arr i j k =
           (if owner_mask i j k
            then j_arr i j k + Interp (snd (snd (j_nodal L q s))) (1, 1, 1) j_type (1, 1, 1) i j k
            else j_arr i j k)"
  using assms
    Interp_nodal_cong [OF assms, of "fst (tmp_j_fluid L q t0 s)" "fst (j_nodal L q s)"]
    Interp_nodal_cong [OF assms, of "fst (snd (tmp_j_fluid L q t0 s))" "fst (snd (j_nodal L q s))"]
    Interp_nodal_cong [OF assms, of "snd (snd (tmp_j_fluid L q t0 s))" "snd (snd (j_nodal L q s))"]
  by (simp_all add: deposit_component_apply tmp_j_fluid_valid)

lemma deposit_component_outside:
  assumes "\<not> contains (convert (validbox L) j_type) i j k"
  shows "deposit_component L tmp_arr j_type owner_mask j_arr i j k = j_arr i j k"
  using assms by (simp add: deposit_component_apply)


lemma j_nodal_clight: "lev_clight L1 = lev_clight L2 \<Longrightarrow> j_nodal L1 q s = j_nodal L2 q s"
  by (simp add: j_nodal_def)

lemma deposit_component_increment:
  assumes "is_index_type j_type"
  shows "deposit_component L (fst (tmp_j_fluid L q t0 s)) j_type owner_mask j_arr i j k - j_arr i j k =
           (if contains (convert (validbox L) j_type) i j k \<and> owner_mask i j k
            then Interp (fst (j_nodal L q s)) (1, 1, 1) j_type (1, 1, 1) i j k else 0)"
    and "deposit_component L (fst (snd (tmp_j_fluid L q t0 s))) j_type owner_mask j_arr i j k - j_arr i j k =
           (if contains (convert (validbox L) j_type) i j k \<and> owner_mask i j k
            then Interp (fst (snd (j_nodal L q s))) (1, 1, 1) j_type (1, 1, 1) i j k else 0)"
    and "deposit_component L (snd (snd (tmp_j_fluid L q t0 s))) j_type owner_mask j_arr i j k - j_arr i j k =
           (if contains (convert (validbox L) j_type) i j k \<and> owner_mask i j k
            then Interp (snd (snd (j_nodal L q s))) (1, 1, 1) j_type (1, 1, 1) i j k else 0)"
  using assms
  by (cases "contains (convert (validbox L) j_type) i j k";
      simp add: deposit_component_nodal deposit_component_outside)+

lemma DepositCharge_increment:
  "DepositCharge L q owner_mask_rho s rho i j k - rho i j k =
     (if contains (validbox L) i j k \<and> owner_mask_rho i j k then q * N_arr s i j k else 0)"
  by (simp add: DepositCharge_def)

text \<open>
  Claim C5. Two patches \<open>L1\<close>, \<open>L2\<close> and the undivided patch \<open>L12\<close> that covers both
  deposit the same moments. If at a mesh point exactly one of the two patches owns
  the point (the point lies in its box and its owner mask is set there) whenever the
  point lies in the undivided patch, then the amounts the two patches add there sum
  to exactly one contribution of the point: \<open>q * N\<close> for the charge at a node of the
  undivided patch, the nodal current \<open>q * NU / gamma_eff\<close> resampled to the index
  type \<open>jt\<close> for each current component at a point of the undivided patch, and
  nothing outside. The same amount is what the undivided patch adds, and for the
  charge also what the two patches add when both accumulate into one array.
\<close>

theorem no_double_counting:
  assumes c: "lev_clight L1 = lev_clight L12" "lev_clight L2 = lev_clight L12"
    and t: "is_index_type jt"
    and cover_n: "contains (validbox L12) i j k \<longleftrightarrow>
                    contains (validbox L1) i j k \<or> contains (validbox L2) i j k"
    and own_n: "contains (validbox L12) i j k \<longrightarrow> mr12 i j k \<and>
                  ((contains (validbox L1) i j k \<and> mr1 i j k) \<noteq>
                   (contains (validbox L2) i j k \<and> mr2 i j k))"
    and cover_j: "contains (convert (validbox L12) jt) i j k \<longleftrightarrow>
                    contains (convert (validbox L1) jt) i j k \<or>
                    contains (convert (validbox L2) jt) i j k"
    and own_j: "contains (convert (validbox L12) jt) i j k \<longrightarrow> mj12 i j k \<and>
                  ((contains (convert (validbox L1) jt) i j k \<and> mj1 i j k) \<noteq>
                   (contains (convert (validbox L2) jt) i j k \<and> mj2 i j k))"
  shows "(DepositCharge L1 q mr1 s rho1 i j k - rho1 i j k)
           + (DepositCharge L2 q mr2 s rho2 i j k - rho2 i j k)
         = (if contains (validbox L12) i j k then q * N_arr s i j k else 0) \<and>
         DepositCharge L12 q mr12 s rho12 i j k - rho12 i j k
         = (if contains (validbox L12) i j k then q * N_arr s i j k else 0) \<and>
         DepositCharge L2 q mr2 s (DepositCharge L1 q mr1 s rho12) i j k
         = rho12 i j k + (if contains (validbox L12) i j k then q * N_arr s i j k else 0) \<and>
         (deposit_component L1 (fst (tmp_j_fluid L1 q t1 s)) jt mj1 j1 i j k - j1 i j k)
           + (deposit_component L2 (fst (tmp_j_fluid L2 q t2 s)) jt mj2 j2 i j k - j2 i j k)
         = (if contains (convert (validbox L12) jt) i j k
            then Interp (fst (j_nodal L12 q s)) (1, 1, 1) jt (1, 1, 1) i j k else 0) \<and>
         deposit_component L12 (fst (tmp_j_fluid L12 q t12 s)) jt mj12 j12 i j k - j12 i j k
         = (if contains (convert (validbox L12) jt) i j k
            then Interp (fst (j_nodal L12 q s)) (1, 1, 1) jt (1, 1, 1) i j k else 0) \<and>
         (deposit_component L1 (fst (snd (tmp_j_fluid L1 q t1 s))) jt mj1 j1 i j k - j1 i j k)
           + (deposit_component L2 (fst (snd (tmp_j_fluid L2 q t2 s))) jt mj2 j2 i j k - j2 i j k)
         = (if contains (convert (validbox L12) jt) i j k
            then Interp (fst (snd (j_nodal L12 q s))) (1, 1, 1) jt (1, 1, 1) i j k else 0) \<and>
         deposit_component L12 (fst (snd (tmp_j_fluid L12 q t12 s))) jt mj12 j12 i j k - j12 i j k
         = (if contains (convert (validbox L12) jt) i j k
            then Interp (fst (snd (j_nodal L12 q s))) (1, 1, 1) jt (1, 1, 1) i j k else 0) \<and>
         (deposit_component L1 (snd (snd (tmp_j_fluid L1 q t1 s))) jt mj1 j1 i j k - j1 i j k)
           + (deposit_component L2 (snd (snd (tmp_j_fluid L2 q t2 s))) jt mj2 j2 i j k - j2 i j k)
         = (if contains (convert (validbox L12) jt) i j k
            then Interp (snd (snd (j_nodal L12 q s))) (1, 1, 1) jt (1, 1, 1) i j k else 0) \<and>
         deposit_component L12 (snd (snd (tmp_j_fluid L12 q t12 s))) jt mj12 j12 i j k - j12 i j k
         = (if contains (convert (validbox L12) jt) i j k
            then Interp (snd (snd (j_nodal L12 q s))) (1, 1, 1) jt (1, 1, 1) i j k else 0)"
proof (intro conjI)
  show "(DepositCharge L1 q mr1 s rho1 i j k - rho1 i j k)
           + (DepositCharge L2 q mr2 s rho2 i j k - rho2 i j k)
         = (if contains (validbox L12) i j k then q * N_arr s i j k else 0)"
    unfolding DepositCharge_increment using cover_n own_n by auto
  show "DepositCharge L12 q mr12 s rho12 i j k - rho12 i j k
         = (if contains (validbox L12) i j k then q * N_arr s i j k else 0)"
    unfolding DepositCharge_increment using own_n by auto
  show "DepositCharge L2 q mr2 s (DepositCharge L1 q mr1 s rho12) i j k
         = rho12 i j k + (if contains (validbox L12) i j k then q * N_arr s i j k else 0)"
    using cover_n own_n by (auto simp: DepositCharge_def)
  note jn = j_nodal_clight [OF c(1), of q s] j_nodal_clight [OF c(2), of q s]
  show "(deposit_component L1 (fst (tmp_j_fluid L1 q t1 s)) jt mj1 j1 i j k - j1 i j k)
           + (deposit_component L2 (fst (tmp_j_fluid L2 q t2 s)) jt mj2 j2 i j k - j2 i j k)
         = (if contains (convert (validbox L12) jt) i j k
            then Interp (fst (j_nodal L12 q s)) (1, 1, 1) jt (1, 1, 1) i j k else 0)"
    unfolding deposit_component_increment [OF t] jn using cover_j own_j by auto
  show "deposit_component L12 (fst (tmp_j_fluid L12 q t12 s)) jt mj12 j12 i j k - j12 i j k
         = (if contains (convert (validbox L12) jt) i j k
            then Interp (fst (j_nodal L12 q s)) (1, 1, 1) jt (1, 1, 1) i j k else 0)"
    unfolding deposit_component_increment [OF t] using own_j by auto
  show "(deposit_component L1 (fst (snd (tmp_j_fluid L1 q t1 s))) jt mj1 j1 i j k - j1 i j k)
           + (deposit_component L2 (fst (snd (tmp_j_fluid L2 q t2 s))) jt mj2 j2 i j k - j2 i j k)
         = (if contains (convert (validbox L12) jt) i j k
            then Interp (fst (snd (j_nodal L12 q s))) (1, 1, 1) jt (1, 1, 1) i j k else 0)"
    unfolding deposit_component_increment [OF t] jn using cover_j own_j by auto
  show "deposit_component L12 (fst (snd (tmp_j_fluid L12 q t12 s))) jt mj12 j12 i j k - j12 i j k
         = (if contains (convert (validbox L12) jt) i j k
            then Interp (fst (snd (j_nodal L12 q s))) (1, 1, 1) jt (1, 1, 1) i j k else 0)"
    unfolding deposit_component_increment [OF t] using own_j by auto
  show "(deposit_component L1 (snd (snd (tmp_j_fluid L1 q t1 s))) jt mj1 j1 i j k - j1 i j k)
           + (deposit_component L2 (snd (snd (tmp_j_fluid L2 q t2 s))) jt mj2 j2 i j k - j2 i j k)
         = (if contains (convert (validbox L12) jt) i j k
            then Interp (snd (snd (j_nodal L12 q s))) (1, 1, 1) jt (1, 1, 1) i j k else 0)"
    unfolding deposit_component_increment [OF t] jn using cover_j own_j by auto
  show "deposit_component L12 (snd (snd (tmp_j_fluid L12 q t12 s))) jt mj12 j12 i j k - j12 i j k
         = (if contains (convert (validbox L12) jt) i j k
            then Interp (snd (snd (j_nodal L12 q s))) (1, 1, 1) jt (1, 1, 1) i j k else 0)"
    unfolding deposit_component_increment [OF t] using own_j by auto
qed

theorem no_double_counting_witness:
  "(DepositCharge (patch L_demo (0, 0, 0) (1, 2, 2)) 2 (\<lambda>i j k. i < 1) s_demo (\<lambda>i j k. 5) 1 1 1 - 5)
     + (DepositCharge (patch L_demo (1, 0, 0) (2, 2, 2)) 2 (\<lambda>i j k. True) s_demo (\<lambda>i j k. 6) 1 1 1 - 6)
   = 2 * N_arr s_demo 1 1 1 \<and>
   DepositCharge (patch L_demo (1, 0, 0) (2, 2, 2)) 2 (\<lambda>i j k. True) s_demo
     (DepositCharge (patch L_demo (0, 0, 0) (1, 2, 2)) 2 (\<lambda>i j k. i < 1) s_demo (\<lambda>i j k. 5)) 1 1 1
   = 5 + 2 * N_arr s_demo 1 1 1 \<and>
   (deposit_component (patch L_demo (0, 0, 0) (1, 2, 2))
        (fst (tmp_j_fluid (patch L_demo (0, 0, 0) (1, 2, 2)) 2 tj_demo s_demo)) (1, 0, 1)
        (\<lambda>i j k. i < 1) (\<lambda>i j k. 7) 1 1 1 - 7)
     + (deposit_component (patch L_demo (1, 0, 0) (2, 2, 2))
        (fst (tmp_j_fluid (patch L_demo (1, 0, 0) (2, 2, 2)) 2 tj_demo s_demo)) (1, 0, 1)
        (\<lambda>i j k. True) (\<lambda>i j k. 8) 1 1 1 - 8)
   = Interp (fst (j_nodal L_demo 2 s_demo)) (1, 1, 1) (1, 0, 1) (1, 1, 1) 1 1 1"
  using no_double_counting [where ?L1.0 = "patch L_demo (0, 0, 0) (1, 2, 2)"
      and ?L2.0 = "patch L_demo (1, 0, 0) (2, 2, 2)" and ?L12.0 = L_demo
      and jt = "(1, 0, 1)" and i = 1 and j = 1 and k = 1
      and ?mr1.0 = "\<lambda>i j k. i < 1" and ?mr2.0 = "\<lambda>i j k. True" and ?mr12.0 = "\<lambda>i j k. True"
      and ?mj1.0 = "\<lambda>i j k. i < 1" and ?mj2.0 = "\<lambda>i j k. True" and ?mj12.0 = "\<lambda>i j k. True"
      and q = 2 and s = s_demo and ?rho1.0 = "\<lambda>i j k. 5" and ?rho2.0 = "\<lambda>i j k. 6"
      and ?rho12.0 = "\<lambda>i j k. 5" and ?t1.0 = tj_demo and ?t2.0 = tj_demo and ?t12.0 = tj_demo
      and ?j1.0 = "\<lambda>i j k. 7" and ?j2.0 = "\<lambda>i j k. 8" and ?j12.0 = "\<lambda>i j k. 9"]
  by (simp add: contains_def convert_def validbox_def patch_def L_demo_def is_index_type_def)

lemma contains_grow1:
  "contains (grow (validbox L) n) i j k \<longleftrightarrow>
     (case (lev_lo L, lev_hi L) of ((lx, ly, lz), (hx, hy, hz)) \<Rightarrow>
        lx - n \<le> i \<and> i \<le> hx + n \<and> ly - n \<le> j \<and> j \<le> hy + n \<and> lz - n \<le> k \<and> k \<le> hz + n)"
  by (simp add: contains_def grow_def validbox_def split: prod.splits)

lemma contains_box_xyz:
  "contains (convert (grow (validbox L) 1) (0, 1, 1)) i j k \<longleftrightarrow>
     (case (lev_lo L, lev_hi L) of ((lx, ly, lz), (hx, hy, hz)) \<Rightarrow>
        lx - 1 \<le> i \<and> i \<le> hx \<and> ly - 1 \<le> j \<and> j \<le> hy + 1 \<and> lz - 1 \<le> k \<and> k \<le> hz + 1)"
  "contains (convert (grow (validbox L) 1) (1, 0, 1)) i j k \<longleftrightarrow>
     (case (lev_lo L, lev_hi L) of ((lx, ly, lz), (hx, hy, hz)) \<Rightarrow>
        lx - 1 \<le> i \<and> i \<le> hx + 1 \<and> ly - 1 \<le> j \<and> j \<le> hy \<and> lz - 1 \<le> k \<and> k \<le> hz + 1)"
  "contains (convert (grow (validbox L) 1) (1, 1, 0)) i j k \<longleftrightarrow>
     (case (lev_lo L, lev_hi L) of ((lx, ly, lz), (hx, hy, hz)) \<Rightarrow>
        lx - 1 \<le> i \<and> i \<le> hx + 1 \<and> ly - 1 \<le> j \<and> j \<le> hy + 1 \<and> lz - 1 \<le> k \<and> k \<le> hz)"
  by (simp_all add: contains_def convert_def grow_def validbox_def split: prod.splits)

lemma predict_fluxes:
  assumes v: "contains (validbox L) i j k" and n: "n < 4"
  shows "F_plusx flux (predict L s t0) n i j k = face_flux_x flux L s n i j k"
    and "F_minusx flux (predict L s t0) n i j k = face_flux_x flux L s n (i - 1) j k"
    and "F_plusy flux (predict L s t0) n i j k = face_flux_y flux L s n i j k"
    and "F_minusy flux (predict L s t0) n i j k = face_flux_y flux L s n i (j - 1) k"
    and "F_plusz flux (predict L s t0) n i j k = face_flux_z flux L s n i j k"
    and "F_minusz flux (predict L s t0) n i j k = face_flux_z flux L s n i j (k - 1)"
proof -
  obtain lx ly lz where lo: "lev_lo L = (lx, ly, lz)" by (cases "lev_lo L") auto
  obtain hx hy hz where hi: "lev_hi L = (hx, hy, hz)" by (cases "lev_hi L") auto
  from v have b: "lx \<le> i" "i \<le> hx" "ly \<le> j" "j \<le> hy" "lz \<le> k" "k \<le> hz"
    by (simp_all add: contains_validbox lo hi)
  show "F_plusx flux (predict L s t0) n i j k = face_flux_x flux L s n i j k"
    using b n
    by (simp add: F_plusx_def face_flux_x_def edge_minus_x_def edge_plus_x_def predict_def
        Let_def contains_grow1 contains_box_xyz lo hi)
  show "F_minusx flux (predict L s t0) n i j k = face_flux_x flux L s n (i - 1) j k"
    using b n
    by (simp add: F_minusx_def face_flux_x_def edge_minus_x_def edge_plus_x_def predict_def
        Let_def contains_grow1 contains_box_xyz lo hi)
  show "F_plusy flux (predict L s t0) n i j k = face_flux_y flux L s n i j k"
    using b n
    by (simp add: F_plusy_def face_flux_y_def edge_minus_y_def edge_plus_y_def predict_def
        Let_def contains_grow1 contains_box_xyz lo hi)
  show "F_minusy flux (predict L s t0) n i j k = face_flux_y flux L s n i (j - 1) k"
    using b n
    by (simp add: F_minusy_def face_flux_y_def edge_minus_y_def edge_plus_y_def predict_def
        Let_def contains_grow1 contains_box_xyz lo hi)
  show "F_plusz flux (predict L s t0) n i j k = face_flux_z flux L s n i j k"
    using b n
    by (simp add: F_plusz_def face_flux_z_def edge_minus_z_def edge_plus_z_def predict_def
        Let_def contains_grow1 contains_box_xyz lo hi)
  show "F_minusz flux (predict L s t0) n i j k = face_flux_z flux L s n i j (k - 1)"
    using b n
    by (simp add: F_minusz_def face_flux_z_def edge_minus_z_def edge_plus_z_def predict_def
        Let_def contains_grow1 contains_box_xyz lo hi)
qed

lemma Q_update_valid:
  assumes v: "contains (validbox L) i j k" and n: "n < 4"
  shows "Q_update flux L (predict L s t0) n Q i j k = fv_update flux L s n Q i j k"
  using v by (simp add: Q_update_def fv_update_def Let_def predict_fluxes [OF v n])

lemma Q_update_outside:
  assumes "\<not> contains (validbox L) i j k"
  shows "Q_update flux L t n Q i j k = Q i j k"
  using assms by (simp add: Q_update_def Let_def)

lemma AdvectivePush_Muscl_valid:
  assumes v: "contains (validbox L) i j k"
  shows "N_arr (AdvectivePush_Muscl flux L t0 s) i j k = fv_update flux L s 0 (N_arr s) i j k"
    and "NUx_arr (AdvectivePush_Muscl flux L t0 s) i j k = fv_update flux L s 1 (NUx_arr s) i j k"
    and "NUy_arr (AdvectivePush_Muscl flux L t0 s) i j k = fv_update flux L s 2 (NUy_arr s) i j k"
    and "NUz_arr (AdvectivePush_Muscl flux L t0 s) i j k = fv_update flux L s 3 (NUz_arr s) i j k"
  using v by (simp_all add: AdvectivePush_Muscl_def Let_def update_def FillBoundary_valid Q_update_valid)


text \<open>
  Claim C3. In every cell of the valid box one call of \<open>AdvectivePush_Muscl\<close> replaces
  each of the four moments \<open>Q\<close> by \<open>Q - \<Sum>\<^sub>a\<^sub>x\<^sub>i\<^sub>s (dt / dx\<^sub>a\<^sub>x\<^sub>i\<^sub>s) (F\<^sub>p\<^sub>l\<^sub>u\<^sub>s - F\<^sub>m\<^sub>i\<^sub>n\<^sub>u\<^sub>s)\<close>, where the
  fluxes are those of the two faces of the cell along the axis, each computed from the
  two predicted edge states that straddle the face. The update is a single assignment
  per cell and moment; the content of the temporaries before the call plays no role.
\<close>

theorem AdvectivePush_Muscl_finite_volume:
  assumes "contains (validbox L) i j k"
  shows "N_arr (AdvectivePush_Muscl flux L t0 s) i j k =
           N_arr s i j k
           - (lev_dt L / lev_dx0 L)
               * (face_flux_x flux L s 0 i j k - face_flux_x flux L s 0 (i - 1) j k)
           - (lev_dt L / lev_dx1 L)
               * (face_flux_y flux L s 0 i j k - face_flux_y flux L s 0 i (j - 1) k)
           - (lev_dt L / lev_dx2 L)
               * (face_flux_z flux L s 0 i j k - face_flux_z flux L s 0 i j (k - 1)) \<and>
         NUx_arr (AdvectivePush_Muscl flux L t0 s) i j k =
           NUx_arr s i j k
           - (lev_dt L / lev_dx0 L)
               * (face_flux_x flux L s 1 i j k - face_flux_x flux L s 1 (i - 1) j k)
           - (lev_dt L / lev_dx1 L)
               * (face_flux_y flux L s 1 i j k - face_flux_y flux L s 1 i (j - 1) k)
           - (lev_dt L / lev_dx2 L)
               * (face_flux_z flux L s 1 i j k - face_flux_z flux L s 1 i j (k - 1)) \<and>
         NUy_arr (AdvectivePush_Muscl flux L t0 s) i j k =
           NUy_arr s i j k
           - (lev_dt L / lev_dx0 L)
               * (face_flux_x flux L s 2 i j k - face_flux_x flux L s 2 (i - 1) j k)
           - (lev_dt L / lev_dx1 L)
               * (face_flux_y flux L s 2 i j k - face_flux_y flux L s 2 i (j - 1) k)
           - (lev_dt L / lev_dx2 L)
               * (face_flux_z flux L s 2 i j k - face_flux_z flux L s 2 i j (k - 1)) \<and>
         NUz_arr (AdvectivePush_Muscl flux L t0 s) i j k =
           NUz_arr s i j k
           - (lev_dt L / lev_dx0 L)
               * (face_flux_x flux L s 3 i j k - face_flux_x flux L s 3 (i - 1) j k)
           - (lev_dt L / lev_dx1 L)
               * (face_flux_y flux L s 3 i j k - face_flux_y flux L s 3 i (j - 1) k)
           - (lev_dt L / lev_dx2 L)
               * (face_flux_z flux L s 3 i j k - face_flux_z flux L s 3 i j (k - 1))"
  using assms by (simp add: AdvectivePush_Muscl_valid fv_update_def)

theorem AdvectivePush_Muscl_finite_volume_witness:
  "contains (validbox L_demo) 1 1 1 \<and>
   N_arr (AdvectivePush_Muscl flux_demo L_demo t_demo s_wave) 1 1 1 =
           N_arr s_wave 1 1 1
           - (lev_dt L_demo / lev_dx0 L_demo)
               * (face_flux_x flux_demo L_demo s_wave 0 1 1 1 - face_flux_x flux_demo L_demo s_wave 0 (1 - 1) 1 1)
           - (lev_dt L_demo / lev_dx1 L_demo)
               * (face_flux_y flux_demo L_demo s_wave 0 1 1 1 - face_flux_y flux_demo L_demo s_wave 0 1 (1 - 1) 1)
           - (lev_dt L_demo / lev_dx2 L_demo)
               * (face_flux_z flux_demo L_demo s_wave 0 1 1 1 - face_flux_z flux_demo L_demo s_wave 0 1 1 (1 - 1))"
proof -
  have h: "contains (validbox L_demo) 1 1 1"
    by (simp add: contains_validbox L_demo_def)
  from AdvectivePush_Muscl_finite_volume [OF h, of flux_demo t_demo s_wave] h
  show ?thesis by blast
qed

lemma Interp_zero: "Interp (\<lambda>i j k. 0) sf sc cr i j k = 0"
  by (simp add: Interp_def Let_def split: prod.splits)

lemma HigueraCary_rest:
  "UpdateMomentumHigueraCary clight (0, 0, 0) (0, 0, 0) (0, 0, 0) q m dt = (0, 0, 0)"
  by (simp add: UpdateMomentumHigueraCary_def Let_def)

lemma pushed_U_rest:
  assumes "zero_fields F"
  shows "pushed_U L q m F uniform_state i j k = (0, 0, 0)"
  using assms
  by (simp add: pushed_U_def zero_fields_def Interp_zero cell_U_def uniform_state_def
      HigueraCary_rest Let_def)

lemma FillBoundary_const: "FillBoundary L (\<lambda>i j k. c) = (\<lambda>i j k. c)"
  by (simp add: FillBoundary_def split: prod.splits)

lemma uniform_sel:
  "N_arr uniform_state = (\<lambda>i j k. 1)" "NUx_arr uniform_state = (\<lambda>i j k. 0)"
  "NUy_arr uniform_state = (\<lambda>i j k. 0)" "NUz_arr uniform_state = (\<lambda>i j k. 0)"
  by (simp_all add: uniform_state_def)

lemma GatherAndPush_rest:
  assumes "zero_fields F"
  shows "GatherAndPush L q m F uniform_state = uniform_state"
  by (simp add: GatherAndPush_def Let_def pushed_U_rest [OF assms] uniform_sel FillBoundary_const
        cong: if_cong)

lemma AdQ_zero_slopes:
  "AdQ_x clight gamma U (0, 0, 0, 0) = (0, 0, 0, 0)"
  "AdQ_y clight gamma U (0, 0, 0, 0) = (0, 0, 0, 0)"
  "AdQ_z clight gamma U (0, 0, 0, 0) = (0, 0, 0, 0)"
  by (simp_all add: AdQ_x_def AdQ_y_def AdQ_z_def Let_def split: prod.splits)

lemma uniform_slopes:
  "dQ_x uniform_state i j k = (0, 0, 0, 0)"
  "dQ_y uniform_state i j k = (0, 0, 0, 0)"
  "dQ_z uniform_state i j k = (0, 0, 0, 0)"
  by (simp_all add: dQ_x_def dQ_y_def dQ_z_def uniform_sel ave_def)

lemma uniform_cells:
  "Q_tilde L uniform_state i j k = (1, 0, 0, 0)"
  "cell_V L uniform_state i j k = (0, 0, 0)"
  by (simp_all add: Q_tilde_def Let_def uniform_slopes AdQ_zero_slopes cell_V_def cell_U_def
      uniform_sel)

lemma uniform_face_flux:
  "face_flux_x flux L uniform_state n i j k = flux (vc (1, 0, 0, 0) n) (vc (1, 0, 0, 0) n) 0 0"
  "face_flux_y flux L uniform_state n i j k = flux (vc (1, 0, 0, 0) n) (vc (1, 0, 0, 0) n) 0 0"
  "face_flux_z flux L uniform_state n i j k = flux (vc (1, 0, 0, 0) n) (vc (1, 0, 0, 0) n) 0 0"
  unfolding face_flux_x_def face_flux_y_def face_flux_z_def
    edge_minus_x_def edge_plus_x_def edge_minus_y_def edge_plus_y_def edge_minus_z_def edge_plus_z_def
    uniform_cells uniform_slopes
  by simp_all

lemma uniform_fv_update: "fv_update flux L uniform_state n Q = Q"
  by (simp add: fv_update_def uniform_face_flux)

lemma uniform_Q_update:
  assumes "n < 4"
  shows "Q_update flux L (predict L uniform_state t0) n Q = Q"
proof (intro ext)
  fix i j k
  show "Q_update flux L (predict L uniform_state t0) n Q i j k = Q i j k"
    by (cases "contains (validbox L) i j k")
       (simp_all add: Q_update_valid [OF _ assms] Q_update_outside uniform_fv_update)
qed

lemma AdvectivePush_Muscl_rest:
  "AdvectivePush_Muscl flux L t0 uniform_state = uniform_state"
  by (simp add: AdvectivePush_Muscl_def Let_def update_def uniform_Q_update)
     (simp add: uniform_state_def FillBoundary_const)

text \<open>
  Claim C8. From the uniform state \<open>N = 1\<close>, \<open>NU = 0\<close> with vanishing fields, one
  \<open>GatherAndPush\<close> followed by one \<open>AdvectivePush_Muscl\<close> returns the uniform state,
  at every node, for every box, time step \<open>dt > 0\<close> and speed of light \<open>c > 0\<close>
  (and every flux function, charge and mass): the pusher keeps \<open>U = 0\<close>, the slopes
  vanish and the fluxes through the two faces of a cell cancel. Hence \<open>Evolve\<close>
  returns the uniform state too.
\<close>

theorem uniform_rest_invariant:
  assumes "zero_fields F" and "0 < lev_dt L" and "0 < lev_clight L"
  shows "AdvectivePush_Muscl flux L t0 (GatherAndPush L q m F uniform_state) = uniform_state \<and>
         fst (Evolve flux L q m F t0 tj0 skip_deposition (uniform_state, J)) = uniform_state \<and>
         Evolve flux L q m F t0 tj0 True (uniform_state, J) = (uniform_state, J)"
  using assms(1) by (simp add: Evolve_def Let_def GatherAndPush_rest AdvectivePush_Muscl_rest)

theorem uniform_rest_invariant_witness:
  "zero_fields F_zero \<and> 0 < lev_dt L_demo \<and> 0 < lev_clight L_demo \<and>
   AdvectivePush_Muscl flux_demo L_demo t_demo (GatherAndPush L_demo 1 2 F_zero uniform_state)
     = uniform_state"
proof -
  have h: "zero_fields F_zero" "0 < lev_dt L_demo" "0 < lev_clight L_demo"
    by (simp_all add: zero_fields_def F_zero_def L_demo_def)
  from uniform_rest_invariant [OF h, of flux_demo t_demo 1 2] h show ?thesis by blast
qed

lemma wrap_shift: "wrap lo hi (i + a * (hi - lo)) = wrap lo hi i"
proof -
  have "i + a * (hi - lo) - lo = (i - lo) + a * (hi - lo)" by simp
  then show ?thesis unfolding wrap_def by (simp only: mod_mult_self1)
qed

lemma halo_shift:
  assumes p: "periodic_halo L f"
    and lo: "lev_lo L = (lx, ly, lz)" and hi: "lev_hi L = (hx, hy, hz)"
    and a: "contains (grow (validbox L) 2) i j k"
    and b: "contains (grow (validbox L) 2)
              (i + a * (hx - lx)) (j + b * (hy - ly)) (k + c * (hz - lz))"
  shows "f i j k = f (i + a * (hx - lx)) (j + b * (hy - ly)) (k + c * (hz - lz))"
proof -
  from p have P: "\<And>i j k. i \<in> {lx - 2..hx + 2} \<Longrightarrow> j \<in> {ly - 2..hy + 2} \<Longrightarrow> k \<in> {lz - 2..hz + 2}
      \<Longrightarrow> f i j k = f (wrap lx hx i) (wrap ly hy j) (wrap lz hz k)"
    by (simp add: periodic_halo_def lo hi)
  from a have "f i j k = f (wrap lx hx i) (wrap ly hy j) (wrap lz hz k)"
    by (intro P) (simp_all add: contains_grow1 lo hi)
  moreover from b have "f (i + a * (hx - lx)) (j + b * (hy - ly)) (k + c * (hz - lz))
      = f (wrap lx hx (i + a * (hx - lx))) (wrap ly hy (j + b * (hy - ly)))
          (wrap lz hz (k + c * (hz - lz)))"
    by (intro P) (simp_all add: contains_grow1 lo hi)
  ultimately show ?thesis by (simp add: wrap_shift)
qed

lemma grow1_neighbours:
  assumes "contains (grow (validbox L) 1) i j k"
  shows "contains (grow (validbox L) 2) i j k"
    "contains (grow (validbox L) 2) (i - 1) j k" "contains (grow (validbox L) 2) (i + 1) j k"
    "contains (grow (validbox L) 2) i (j - 1) k" "contains (grow (validbox L) 2) i (j + 1) k"
    "contains (grow (validbox L) 2) i j (k - 1)" "contains (grow (validbox L) 2) i j (k + 1)"
  using assms by (auto simp: contains_grow1 split: prod.splits)

lemma halo_same_stencil:
  assumes p: "periodic_halo L f"
    and lo: "lev_lo L = (lx, ly, lz)" and hi: "lev_hi L = (hx, hy, hz)"
    and a: "contains (grow (validbox L) 1) i j k"
    and b: "contains (grow (validbox L) 1)
              (i + a * (hx - lx)) (j + b * (hy - ly)) (k + c * (hz - lz))"
  shows "same_stencil f i j k (i + a * (hx - lx)) (j + b * (hy - ly)) (k + c * (hz - lz))"
proof -
  note A = grow1_neighbours [OF a] and B = grow1_neighbours [OF b]
  note H = halo_shift [OF p lo hi, where a = a and b = b and c = c]
  have "f i j k = f (i + a * (hx - lx)) (j + b * (hy - ly)) (k + c * (hz - lz))"
    using H [OF A(1)] B(1) by simp
  moreover have "f (i - 1) j k = f (i + a * (hx - lx) - 1) (j + b * (hy - ly)) (k + c * (hz - lz))"
    using H [OF A(2)] B(2) by (simp add: algebra_simps)
  moreover have "f (i + 1) j k = f (i + a * (hx - lx) + 1) (j + b * (hy - ly)) (k + c * (hz - lz))"
    using H [OF A(3)] B(3) by (simp add: algebra_simps)
  moreover have "f i (j - 1) k = f (i + a * (hx - lx)) (j + b * (hy - ly) - 1) (k + c * (hz - lz))"
    using H [OF A(4)] B(4) by (simp add: algebra_simps)
  moreover have "f i (j + 1) k = f (i + a * (hx - lx)) (j + b * (hy - ly) + 1) (k + c * (hz - lz))"
    using H [OF A(5)] B(5) by (simp add: algebra_simps)
  moreover have "f i j (k - 1) = f (i + a * (hx - lx)) (j + b * (hy - ly)) (k + c * (hz - lz) - 1)"
    using H [OF A(6)] B(6) by (simp add: algebra_simps)
  moreover have "f i j (k + 1) = f (i + a * (hx - lx)) (j + b * (hy - ly)) (k + c * (hz - lz) + 1)"
    using H [OF A(7)] B(7) by (simp add: algebra_simps)
  ultimately show ?thesis by (simp add: same_stencil_def)
qed

lemma same_cell_quantities:
  assumes "same_cell s i j k i' j' k'"
  shows "Q_tilde L s i j k = Q_tilde L s i' j' k'"
    and "dQ_x s i j k = dQ_x s i' j' k'"
    and "dQ_y s i j k = dQ_y s i' j' k'"
    and "dQ_z s i j k = dQ_z s i' j' k'"
    and "cell_V L s i j k = cell_V L s i' j' k'"
proof -
  from assms have e:
    "N_arr s i j k = N_arr s i' j' k'"
    "N_arr s (i - 1) j k = N_arr s (i' - 1) j' k'" "N_arr s (i + 1) j k = N_arr s (i' + 1) j' k'"
    "N_arr s i (j - 1) k = N_arr s i' (j' - 1) k'" "N_arr s i (j + 1) k = N_arr s i' (j' + 1) k'"
    "N_arr s i j (k - 1) = N_arr s i' j' (k' - 1)" "N_arr s i j (k + 1) = N_arr s i' j' (k' + 1)"
    "NUx_arr s i j k = NUx_arr s i' j' k'"
    "NUx_arr s (i - 1) j k = NUx_arr s (i' - 1) j' k'" "NUx_arr s (i + 1) j k = NUx_arr s (i' + 1) j' k'"
    "NUx_arr s i (j - 1) k = NUx_arr s i' (j' - 1) k'" "NUx_arr s i (j + 1) k = NUx_arr s i' (j' + 1) k'"
    "NUx_arr s i j (k - 1) = NUx_arr s i' j' (k' - 1)" "NUx_arr s i j (k + 1) = NUx_arr s i' j' (k' + 1)"
    "NUy_arr s i j k = NUy_arr s i' j' k'"
    "NUy_arr s (i - 1) j k = NUy_arr s (i' - 1) j' k'" "NUy_arr s (i + 1) j k = NUy_arr s (i' + 1) j' k'"
    "NUy_arr s i (j - 1) k = NUy_arr s i' (j' - 1) k'" "NUy_arr s i (j + 1) k = NUy_arr s i' (j' + 1) k'"
    "NUy_arr s i j (k - 1) = NUy_arr s i' j' (k' - 1)" "NUy_arr s i j (k + 1) = NUy_arr s i' j' (k' + 1)"
    "NUz_arr s i j k = NUz_arr s i' j' k'"
    "NUz_arr s (i - 1) j k = NUz_arr s (i' - 1) j' k'" "NUz_arr s (i + 1) j k = NUz_arr s (i' + 1) j' k'"
    "NUz_arr s i (j - 1) k = NUz_arr s i' (j' - 1) k'" "NUz_arr s i (j + 1) k = NUz_arr s i' (j' + 1) k'"
    "NUz_arr s i j (k - 1) = NUz_arr s i' j' (k' - 1)" "NUz_arr s i j (k + 1) = NUz_arr s i' j' (k' + 1)"
    by (simp_all add: same_cell_def same_stencil_def)
  show x: "dQ_x s i j k = dQ_x s i' j' k'" by (simp add: dQ_x_def e)
  show y: "dQ_y s i j k = dQ_y s i' j' k'" by (simp add: dQ_y_def e)
  show z: "dQ_z s i j k = dQ_z s i' j' k'" by (simp add: dQ_z_def e)
  have u: "cell_U s i j k = cell_U s i' j' k'" by (simp add: cell_U_def e)
  show "cell_V L s i j k = cell_V L s i' j' k'" by (simp add: cell_V_def u)
  show "Q_tilde L s i j k = Q_tilde L s i' j' k'"
    unfolding Q_tilde_def x y z u by (simp only: e)
qed


lemma periodic_same_cell:
  assumes p: "periodic_state L s"
    and lo: "lev_lo L = (lx, ly, lz)" and hi: "lev_hi L = (hx, hy, hz)"
    and a: "contains (grow (validbox L) 1) i j k"
    and b: "contains (grow (validbox L) 1)
              (i + a * (hx - lx)) (j + b * (hy - ly)) (k + c * (hz - lz))"
  shows "same_cell s i j k (i + a * (hx - lx)) (j + b * (hy - ly)) (k + c * (hz - lz))"
  using p unfolding same_cell_def periodic_state_def
  by (auto intro: halo_same_stencil [OF _ lo hi a b])

lemma periodic_face_flux_x:
  assumes p: "periodic_state L s"
    and lo: "lev_lo L = (lx, ly, lz)" and hi: "lev_hi L = (hx, hy, hz)"
    and r: "lx < hx" "ly \<le> j" "j < hy" "lz \<le> k" "k < hz"
  shows "face_flux_x flux L s n (hx - 1) j k = face_flux_x flux L s n (lx - 1) j k"
proof -
  have c1: "same_cell s (lx - 1) j k (lx - 1 + 1 * (hx - lx)) (j + 0 * (hy - ly)) (k + 0 * (hz - lz))"
    using r by (intro periodic_same_cell [OF p lo hi]) (simp_all add: contains_grow1 lo hi)
  have c2: "same_cell s (lx - 1 + 1) j k (lx - 1 + 1 + 1 * (hx - lx)) (j + 0 * (hy - ly))
              (k + 0 * (hz - lz))"
    using r by (intro periodic_same_cell [OF p lo hi]) (simp_all add: contains_grow1 lo hi)
  have e: "lx - 1 + 1 * (hx - lx) = hx - 1" "lx - 1 + 1 + 1 * (hx - lx) = hx - 1 + 1"
    "j + 0 * (hy - ly) = j" "k + 0 * (hz - lz) = k"
    by simp_all
  note q1 = same_cell_quantities [OF c1 [unfolded e]]
  note q2 = same_cell_quantities [OF c2 [unfolded e]]
  show ?thesis
    unfolding face_flux_x_def edge_minus_x_def edge_plus_x_def q1 q2 by (rule refl)
qed

lemma periodic_face_flux_y:
  assumes p: "periodic_state L s"
    and lo: "lev_lo L = (lx, ly, lz)" and hi: "lev_hi L = (hx, hy, hz)"
    and r: "ly < hy" "lx \<le> i" "i < hx" "lz \<le> k" "k < hz"
  shows "face_flux_y flux L s n i (hy - 1) k = face_flux_y flux L s n i (ly - 1) k"
proof -
  have c1: "same_cell s i (ly - 1) k (i + 0 * (hx - lx)) (ly - 1 + 1 * (hy - ly)) (k + 0 * (hz - lz))"
    using r by (intro periodic_same_cell [OF p lo hi]) (simp_all add: contains_grow1 lo hi)
  have c2: "same_cell s i (ly - 1 + 1) k (i + 0 * (hx - lx)) (ly - 1 + 1 + 1 * (hy - ly))
              (k + 0 * (hz - lz))"
    using r by (intro periodic_same_cell [OF p lo hi]) (simp_all add: contains_grow1 lo hi)
  have e: "ly - 1 + 1 * (hy - ly) = hy - 1" "ly - 1 + 1 + 1 * (hy - ly) = hy - 1 + 1"
    "i + 0 * (hx - lx) = i" "k + 0 * (hz - lz) = k"
    by simp_all
  note q1 = same_cell_quantities [OF c1 [unfolded e]]
  note q2 = same_cell_quantities [OF c2 [unfolded e]]
  show ?thesis
    unfolding face_flux_y_def edge_minus_y_def edge_plus_y_def q1 q2 by (rule refl)
qed

lemma periodic_face_flux_z:
  assumes p: "periodic_state L s"
    and lo: "lev_lo L = (lx, ly, lz)" and hi: "lev_hi L = (hx, hy, hz)"
    and r: "lz < hz" "lx \<le> i" "i < hx" "ly \<le> j" "j < hy"
  shows "face_flux_z flux L s n i j (hz - 1) = face_flux_z flux L s n i j (lz - 1)"
proof -
  have c1: "same_cell s i j (lz - 1) (i + 0 * (hx - lx)) (j + 0 * (hy - ly)) (lz - 1 + 1 * (hz - lz))"
    using r by (intro periodic_same_cell [OF p lo hi]) (simp_all add: contains_grow1 lo hi)
  have c2: "same_cell s i j (lz - 1 + 1) (i + 0 * (hx - lx)) (j + 0 * (hy - ly))
              (lz - 1 + 1 + 1 * (hz - lz))"
    using r by (intro periodic_same_cell [OF p lo hi]) (simp_all add: contains_grow1 lo hi)
  have e: "lz - 1 + 1 * (hz - lz) = hz - 1" "lz - 1 + 1 + 1 * (hz - lz) = hz - 1 + 1"
    "i + 0 * (hx - lx) = i" "j + 0 * (hy - ly) = j"
    by simp_all
  note q1 = same_cell_quantities [OF c1 [unfolded e]]
  note q2 = same_cell_quantities [OF c2 [unfolded e]]
  show ?thesis
    unfolding face_flux_z_def edge_minus_z_def edge_plus_z_def q1 q2 by (rule refl)
qed

lemma telescope_int:
  fixes g :: "int \<Rightarrow> real"
  assumes "a \<le> b"
  shows "(\<Sum>i = a..<b. g i - g (i - 1)) = g (b - 1) - g (a - 1)"
  using assms
proof (induct b rule: int_ge_induct)
  case base
  show ?case by simp
next
  case (step b)
  have "{a..<b + 1} = insert b {a..<b}" using step(1) by auto
  then show ?case using step by simp
qed

lemma telescope_zero:
  fixes g :: "int \<Rightarrow> real"
  assumes "a < b \<Longrightarrow> g (b - 1) = g (a - 1)"
  shows "(\<Sum>i = a..<b. g i - g (i - 1)) = 0"
proof (cases "a < b")
  case True
  with assms telescope_int [of a b g] show ?thesis by simp
next
  case False
  then show ?thesis by simp
qed


lemma flux_sum_x:
  assumes p: "periodic_state L s"
    and lo: "lev_lo L = (lx, ly, lz)" and hi: "lev_hi L = (hx, hy, hz)"
  shows "(\<Sum>i = lx..<hx. \<Sum>j = ly..<hy. \<Sum>k = lz..<hz.
            face_flux_x flux L s n i j k - face_flux_x flux L s n (i - 1) j k) = 0"
proof -
  let ?G = "\<lambda>i. \<Sum>j = ly..<hy. \<Sum>k = lz..<hz. face_flux_x flux L s n i j k"
  have "(\<Sum>i = lx..<hx. \<Sum>j = ly..<hy. \<Sum>k = lz..<hz.
            face_flux_x flux L s n i j k - face_flux_x flux L s n (i - 1) j k)
      = (\<Sum>i = lx..<hx. ?G i - ?G (i - 1))"
    by (simp add: sum_subtractf)
  also have "\<dots> = 0"
  proof (rule telescope_zero)
    assume "lx < hx"
    then show "?G (hx - 1) = ?G (lx - 1)"
      by (intro sum.cong refl periodic_face_flux_x [OF p lo hi]) simp_all
  qed
  finally show ?thesis .
qed

lemma flux_sum_y:
  assumes p: "periodic_state L s"
    and lo: "lev_lo L = (lx, ly, lz)" and hi: "lev_hi L = (hx, hy, hz)"
  shows "(\<Sum>i = lx..<hx. \<Sum>j = ly..<hy. \<Sum>k = lz..<hz.
            face_flux_y flux L s n i j k - face_flux_y flux L s n i (j - 1) k) = 0"
proof -
  have "(\<Sum>j = ly..<hy. \<Sum>k = lz..<hz.
            face_flux_y flux L s n i j k - face_flux_y flux L s n i (j - 1) k) = 0"
    if i: "i \<in> {lx..<hx}" for i
  proof -
    let ?H = "\<lambda>j. \<Sum>k = lz..<hz. face_flux_y flux L s n i j k"
    have "(\<Sum>j = ly..<hy. \<Sum>k = lz..<hz.
              face_flux_y flux L s n i j k - face_flux_y flux L s n i (j - 1) k)
        = (\<Sum>j = ly..<hy. ?H j - ?H (j - 1))"
      by (simp add: sum_subtractf)
    also have "\<dots> = 0"
    proof (rule telescope_zero)
      assume "ly < hy"
      then show "?H (hy - 1) = ?H (ly - 1)"
        using i by (intro sum.cong refl periodic_face_flux_y [OF p lo hi]) simp_all
    qed
    finally show ?thesis .
  qed
  then show ?thesis by simp
qed

lemma flux_sum_z:
  assumes p: "periodic_state L s"
    and lo: "lev_lo L = (lx, ly, lz)" and hi: "lev_hi L = (hx, hy, hz)"
  shows "(\<Sum>i = lx..<hx. \<Sum>j = ly..<hy. \<Sum>k = lz..<hz.
            face_flux_z flux L s n i j k - face_flux_z flux L s n i j (k - 1)) = 0"
proof -
  have "(\<Sum>k = lz..<hz. face_flux_z flux L s n i j k - face_flux_z flux L s n i j (k - 1)) = 0"
    if i: "i \<in> {lx..<hx}" and j: "j \<in> {ly..<hy}" for i j
  proof (rule telescope_zero)
    assume "lz < hz"
    then show "face_flux_z flux L s n i j (hz - 1) = face_flux_z flux L s n i j (lz - 1)"
      using i j by (intro periodic_face_flux_z [OF p lo hi]) simp_all
  qed
  then show ?thesis by simp
qed

lemma total_fv_update:
  assumes p: "periodic_state L s"
  shows "total_owned L (fv_update flux L s n Q) = total_owned L Q"
proof -
  obtain lx ly lz where lo: "lev_lo L = (lx, ly, lz)" by (cases "lev_lo L") auto
  obtain hx hy hz where hi: "lev_hi L = (hx, hy, hz)" by (cases "lev_hi L") auto
  have "total_owned L (fv_update flux L s n Q)
      = total_owned L Q
        - (\<Sum>i = lx..<hx. \<Sum>j = ly..<hy. \<Sum>k = lz..<hz. (lev_dt L / lev_dx0 L) *
            (face_flux_x flux L s n i j k - face_flux_x flux L s n (i - 1) j k))
        - (\<Sum>i = lx..<hx. \<Sum>j = ly..<hy. \<Sum>k = lz..<hz. (lev_dt L / lev_dx1 L) *
            (face_flux_y flux L s n i j k - face_flux_y flux L s n i (j - 1) k))
        - (\<Sum>i = lx..<hx. \<Sum>j = ly..<hy. \<Sum>k = lz..<hz. (lev_dt L / lev_dx2 L) *
            (face_flux_z flux L s n i j k - face_flux_z flux L s n i j (k - 1)))"
    unfolding total_owned_def fv_update_def lo hi prod.case
    by (simp only: sum_subtractf)
  also have "\<dots> = total_owned L Q
        - (lev_dt L / lev_dx0 L) * (\<Sum>i = lx..<hx. \<Sum>j = ly..<hy. \<Sum>k = lz..<hz.
            face_flux_x flux L s n i j k - face_flux_x flux L s n (i - 1) j k)
        - (lev_dt L / lev_dx1 L) * (\<Sum>i = lx..<hx. \<Sum>j = ly..<hy. \<Sum>k = lz..<hz.
            face_flux_y flux L s n i j k - face_flux_y flux L s n i (j - 1) k)
        - (lev_dt L / lev_dx2 L) * (\<Sum>i = lx..<hx. \<Sum>j = ly..<hy. \<Sum>k = lz..<hz.
            face_flux_z flux L s n i j k - face_flux_z flux L s n i j (k - 1))"
    by (simp only: sum_distrib_left)
  finally show ?thesis
    by (simp add: flux_sum_x [OF p lo hi] flux_sum_y [OF p lo hi] flux_sum_z [OF p lo hi])
qed

lemma total_cong:
  assumes "\<And>i j k. contains (validbox L) i j k \<Longrightarrow> f i j k = g i j k"
  shows "total_owned L f = total_owned L g"
proof -
  obtain lx ly lz where lo: "lev_lo L = (lx, ly, lz)" by (cases "lev_lo L") auto
  obtain hx hy hz where hi: "lev_hi L = (hx, hy, hz)" by (cases "lev_hi L") auto
  show ?thesis
    unfolding total_owned_def lo hi prod.case
    by (intro sum.cong refl assms) (simp add: contains_validbox lo hi)
qed

text \<open>
  Two sample runs with the flux \<open>flux_model\<close>. Where a state has the density \<open>g i\<close>
  and the momentum density \<open>(3 g i, 0, 0)\<close> on the stencils of a face, on a level with
  \<open>dt = 1\<close>, \<open>dx = 12\<close> and \<open>c = 4\<close>, the velocity is \<open>12/5\<close> along \<open>x\<close>, the flux through a
  face across \<open>x\<close> is the upwind flux of the predicted edge state, and the fluxes
  through the faces across \<open>y\<close> and \<open>z\<close> vanish.
\<close>

lemma ave_scale:
  assumes c: "c \<noteq> 0"
  shows "ave (c * a) (c * b) = c * ave a b"
proof -
  have e: "c * a * (c * b) = c * c * (a * b)" by simp
  have "0 < c * c" using c by (simp add: zero_less_mult_iff) linarith
  from mult_le_cancel_left_pos [OF this, of "a * b" 0]
  have s: "c * a * (c * b) \<le> 0 \<longleftrightarrow> a * b \<le> 0" unfolding e by simp
  have "2 * (c * a) * (c * b) / (c * a + c * b) = c * (2 * a * b / (a + b))"
    using c by (simp add: distrib_left [symmetric])
  then show ?thesis unfolding ave_def s by simp
qed

lemma gamma_ramp: "cell_gamma 4 (3, 0, 0) = 5 / 4"
proof -
  have "sqrt (25 / 16) = 5 / 4" by (rule real_sqrt_unique) (simp_all add: power2_eq_square)
  moreover have "(1::real) + (3 * 3 + 0 * 0 + 0 * 0) / (4 * 4) = 25 / 16" by simp
  ultimately show ?thesis by (simp add: cell_gamma_def Let_def)
qed

lemma AdQ_x_ramp0: "fst (AdQ_x 4 (5 / 4) (3, 0, 0) (d, 3 * d, 0, 0)) = 12 / 5 * d"
  by (simp add: AdQ_x_def Let_def field_simps)

lemma flux_model_equal_speed: "0 \<le> v \<Longrightarrow> flux_model a b v v = v * a"
  by (simp add: flux_model_def Let_def field_simps)

lemma flux_model_rest: "flux_model a b 0 0 = 0"
  by (simp add: flux_model_def)

lemma profile_cell:
  assumes L: "lev_dt L = 1" "lev_dx0 L = 12" "lev_clight L = 4"
    and c: "profile_node s g i j k"
    and x: "profile_node s g (i - 1) j k" "profile_node s g (i + 1) j k"
    and y: "profile_node s g i (j - 1) k" "profile_node s g i (j + 1) k"
    and z: "profile_node s g i j (k - 1)" "profile_node s g i j (k + 1)"
    and pos: "g i \<noteq> 0"
  shows "cell_V L s i j k = (12 / 5, 0, 0)"
    and "vc (dQ_x s i j k) 0 = ave (g i - g (i - 1)) (g (i + 1) - g i)"
    and "vc (Q_tilde L s i j k) 0 = g i - ave (g i - g (i - 1)) (g (i + 1) - g i) / 10"
proof -
  define d where "d = ave (g i - g (i - 1)) (g (i + 1) - g i)"
  have U: "cell_U s i j k = (3, 0, 0)"
    using c pos by (simp add: cell_U_def profile_node_def)
  show "cell_V L s i j k = (12 / 5, 0, 0)"
    by (simp add: cell_V_def U L gamma_ramp)
  have "ave (3 * g i - 3 * g (i - 1)) (3 * g (i + 1) - 3 * g i) = 3 * d"
    using ave_scale [of 3 "g i - g (i - 1)" "g (i + 1) - g i"]
    by (simp add: d_def right_diff_distrib)
  then have dx: "dQ_x s i j k = (d, 3 * d, 0, 0)"
    using c x by (simp add: dQ_x_def profile_node_def d_def ave_def)
  have dy: "dQ_y s i j k = (0, 0, 0, 0)"
    using c y by (simp add: dQ_y_def profile_node_def ave_def)
  have dz: "dQ_z s i j k = (0, 0, 0, 0)"
    using c z by (simp add: dQ_z_def profile_node_def ave_def)
  show "vc (dQ_x s i j k) 0 = ave (g i - g (i - 1)) (g (i + 1) - g i)"
    by (simp add: dx d_def)
  have ax: "AdQ_x 4 (5 / 4) (3, 0, 0) (d, 3 * d, 0, 0)
      = (fst (AdQ_x 4 (5 / 4) (3, 0, 0) (d, 3 * d, 0, 0)),
         snd (AdQ_x 4 (5 / 4) (3, 0, 0) (d, 3 * d, 0, 0)))" by simp
  have "vc (Q_tilde L s i j k) 0 = g i - d / 10"
    unfolding Q_tilde_def Let_def U L gamma_ramp dx dy dz AdQ_zero_slopes
    using c
    by (subst ax) (simp add: AdQ_x_ramp0 split_def profile_node_def)
  then show "vc (Q_tilde L s i j k) 0 = g i - ave (g i - g (i - 1)) (g (i + 1) - g i) / 10"
    by (simp add: d_def)
qed

lemma x_flux_profile:
  assumes L: "lev_dt L = 1" "lev_dx0 L = 12" "lev_clight L = 4"
    and v: "\<And>i' j' k'. i - 1 \<le> i' \<Longrightarrow> i' \<le> i + 2 \<Longrightarrow> j - 1 \<le> j' \<Longrightarrow> j' \<le> j + 1 \<Longrightarrow>
              k - 1 \<le> k' \<Longrightarrow> k' \<le> k + 1 \<Longrightarrow> profile_node s g i' j' k'"
    and pos: "g i \<noteq> 0" "g (i + 1) \<noteq> 0"
  shows "face_flux_x flux_model L s 0 i j k
           = 12 / 5 * (g i + 2 / 5 * ave (g i - g (i - 1)) (g (i + 1) - g i))"
proof -
  note a = profile_cell [OF L, of s g i j k, OF _ _ _ _ _ _ _ pos(1)]
  have c1: "cell_V L s i j k = (12 / 5, 0, 0)"
    "vc (dQ_x s i j k) 0 = ave (g i - g (i - 1)) (g (i + 1) - g i)"
    "vc (Q_tilde L s i j k) 0 = g i - ave (g i - g (i - 1)) (g (i + 1) - g i) / 10"
    by (rule a; rule v; simp)+
  have c2: "cell_V L s (i + 1) j k = (12 / 5, 0, 0)"
    by (rule profile_cell [OF L, of s g "i + 1" j k, OF _ _ _ _ _ _ _ pos(2)]; rule v; simp)
  show ?thesis
    unfolding face_flux_x_def edge_minus_x_def c1 c2 fst_conv
    by (simp add: flux_model_equal_speed)
qed

lemma y_flux_rest:
  assumes "NUy_arr s i j k = 0" "NUy_arr s i (j + 1) k = 0"
  shows "face_flux_y flux_model L s n i j k = 0"
  using assms by (simp add: face_flux_y_def cell_V_def cell_U_def Let_def flux_model_rest)

lemma z_flux_rest:
  assumes "NUz_arr s i j k = 0" "NUz_arr s i j (k + 1) = 0"
  shows "face_flux_z flux_model L s n i j k = 0"
  using assms by (simp add: face_flux_z_def cell_V_def cell_U_def Let_def flux_model_rest)

lemma fv_update_profile:
  assumes L: "lev_dt L = 1" "lev_dx0 L = 12" "lev_clight L = 4"
    and v: "\<And>i' j' k'. i - 2 \<le> i' \<Longrightarrow> i' \<le> i + 2 \<Longrightarrow> j - 1 \<le> j' \<Longrightarrow> j' \<le> j + 1 \<Longrightarrow>
              k - 1 \<le> k' \<Longrightarrow> k' \<le> k + 1 \<Longrightarrow> profile_node s g i' j' k'"
    and pos: "g (i - 1) \<noteq> 0" "g i \<noteq> 0" "g (i + 1) \<noteq> 0"
  shows "fv_update flux_model L s 0 (N_arr s) i j k
           = g i - (12 / 5 * (g i + 2 / 5 * ave (g i - g (i - 1)) (g (i + 1) - g i))
                    - 12 / 5 * (g (i - 1)
                        + 2 / 5 * ave (g (i - 1) - g (i - 2)) (g i - g (i - 1)))) / 12"
proof -
  have x1: "face_flux_x flux_model L s 0 i j k
      = 12 / 5 * (g i + 2 / 5 * ave (g i - g (i - 1)) (g (i + 1) - g i))"
    by (rule x_flux_profile [OF L _ pos(2,3)]) (rule v; simp)
  have x0: "face_flux_x flux_model L s 0 (i - 1) j k
      = 12 / 5 * (g (i - 1) + 2 / 5 * ave (g (i - 1) - g (i - 1 - 1)) (g (i - 1 + 1) - g (i - 1)))"
    using pos by (intro x_flux_profile [OF L]) (simp_all add: v)
  have n: "\<And>j' k'. j - 1 \<le> j' \<Longrightarrow> j' \<le> j + 1 \<Longrightarrow> k - 1 \<le> k' \<Longrightarrow> k' \<le> k + 1 \<Longrightarrow>
      profile_node s g i j' k'"
    by (rule v) simp_all
  have y: "face_flux_y flux_model L s 0 i j k = 0" "face_flux_y flux_model L s 0 i (j - 1) k = 0"
    using n [of j k] n [of "j + 1" k] n [of "j - 1" k]
    by (simp_all add: y_flux_rest profile_node_def)
  have z: "face_flux_z flux_model L s 0 i j k = 0" "face_flux_z flux_model L s 0 i j (k - 1) = 0"
    using n [of j k] n [of j "k + 1"] n [of j "k - 1"]
    by (simp_all add: z_flux_rest profile_node_def)
  have e: "i - 1 - 1 = i - 2" "i - 1 + 1 = i" by simp_all
  from n [of j k] have N: "N_arr s i j k = g i" by (simp add: profile_node_def)
  show ?thesis
    unfolding fv_update_def x1 x0 y z L N e by simp
qed

lemma ramp_nodes:
  assumes "- 2 \<le> i" "i \<le> 5" "- 2 \<le> j" "j \<le> 5" "- 2 \<le> k" "k \<le> 5"
  shows "profile_node s_ramp ramp i j k"
  using assms
  by (auto simp: profile_node_def s_ramp_def InitData_def Let_def FillBoundary_def ramp_def
      AllocateLevelMFs_def L_ramp_def contains_def validbox_def grow_def periodic_image_def
      wrap_def)

lemma saw_nodes: "profile_node s_saw saw i j k"
  by (simp add: profile_node_def s_saw_def saw_def)

lemma total_L_ramp:
  "total_owned L_ramp f = (\<Sum>i \<in> {0, 1, 2}. \<Sum>j \<in> {0, 1, 2}. \<Sum>k \<in> {0, 1, 2}. f i j k)"
proof -
  have "{0..<3::int} = {0, 1, 2}" by auto
  then show ?thesis by (simp add: total_owned_def L_ramp_def)
qed

lemma ramp_values:
  "ramp (- 2) = 2" "ramp (- 1) = 3" "ramp 0 = 1" "ramp 1 = 2" "ramp 2 = 3" "ramp 3 = 4"
  "ramp 4 = 2" "ramp 5 = 3"
  by (simp_all add: ramp_def periodic_image_def wrap_def)

lemma ramp_nonzero: "ramp i \<noteq> 0"
proof -
  have "0 \<le> periodic_image 0 3 i" by (simp add: periodic_image_def wrap_def)
  then show ?thesis by (simp add: ramp_def)
qed

lemma nonzero_ramp: "nonzero_density L_ramp s_ramp"
  unfolding nonzero_density_def
proof (intro allI impI)
  fix i j k
  assume "contains (grow (validbox L_ramp) 1) i j k"
  then have "profile_node s_ramp ramp i j k"
    by (intro ramp_nodes) (simp_all add: contains_grow1 L_ramp_def)
  then show "N_arr s_ramp i j k \<noteq> 0" by (simp add: profile_node_def ramp_nonzero)
qed

lemma ramp_fv_update:
  assumes "contains (validbox L_ramp) i j k"
  shows "fv_update flux_model L_ramp s_ramp 0 (N_arr s_ramp) i j k
           = ramp i - (12 / 5 * (ramp i + 2 / 5 * ave (ramp i - ramp (i - 1)) (ramp (i + 1) - ramp i))
                    - 12 / 5 * (ramp (i - 1)
                        + 2 / 5 * ave (ramp (i - 1) - ramp (i - 2)) (ramp i - ramp (i - 1)))) / 12"
proof (rule fv_update_profile)
  show "lev_dt L_ramp = 1" "lev_dx0 L_ramp = 12" "lev_clight L_ramp = 4"
    by (simp_all add: L_ramp_def)
  show "ramp (i - 1) \<noteq> 0" "ramp i \<noteq> 0" "ramp (i + 1) \<noteq> 0" by (rule ramp_nonzero)+
  fix i' j' k'
  assume "i - 2 \<le> i'" "i' \<le> i + 2" "j - 1 \<le> j'" "j' \<le> j + 1" "k - 1 \<le> k'" "k' \<le> k + 1"
  with assms show "profile_node s_ramp ramp i' j' k'"
    by (intro ramp_nodes) (simp_all add: contains_validbox L_ramp_def)
qed

lemma ramp_total_before: "total_owned L_ramp (N_arr s_ramp) = 54"
proof -
  have "total_owned L_ramp (N_arr s_ramp) = total_owned L_ramp (\<lambda>i j k. ramp i)"
  proof (rule total_cong)
    fix i j k
    assume "contains (validbox L_ramp) i j k"
    then have "profile_node s_ramp ramp i j k"
      by (intro ramp_nodes) (simp_all add: contains_validbox L_ramp_def)
    then show "N_arr s_ramp i j k = ramp i" by (simp add: profile_node_def)
  qed
  then show ?thesis by (simp add: total_L_ramp ramp_values)
qed

lemma ramp_total_after:
  "total_owned L_ramp (N_arr (AdvectivePush_Muscl flux_model L_ramp t0 s_ramp)) = 54 - 18 / 25"
proof -
  have "total_owned L_ramp (N_arr (AdvectivePush_Muscl flux_model L_ramp t0 s_ramp))
      = total_owned L_ramp (fv_update flux_model L_ramp s_ramp 0 (N_arr s_ramp))"
    by (rule total_cong) (rule AdvectivePush_Muscl_valid)
  also have "\<dots> = total_owned L_ramp (\<lambda>i j k.
      ramp i - (12 / 5 * (ramp i + 2 / 5 * ave (ramp i - ramp (i - 1)) (ramp (i + 1) - ramp i))
                    - 12 / 5 * (ramp (i - 1)
                        + 2 / 5 * ave (ramp (i - 1) - ramp (i - 2)) (ramp i - ramp (i - 1)))) / 12)"
    by (rule total_cong) (rule ramp_fv_update)
  also have "\<dots> = 54 - 18 / 25"
    by (simp add: total_L_ramp ramp_values ave_def)
  finally show ?thesis .
qed

lemma saw_nonzero: "saw i \<noteq> 0"
proof -
  have "0 \<le> i mod 3" by simp
  then show ?thesis unfolding saw_def by linarith
qed

lemma periodic_saw: "periodic_state L_ramp s_saw"
  by (simp add: periodic_state_def periodic_halo_def L_ramp_def s_saw_def wrap_def)

lemma nonzero_saw: "nonzero_density L_ramp s_saw"
  using saw_nonzero by (simp add: nonzero_density_def s_saw_def saw_def)

lemma saw_step:
  "N_arr (AdvectivePush_Muscl flux_model L_ramp t0 s_saw) 1 1 1 = 43 / 25"
proof -
  have v: "contains (validbox L_ramp) 1 1 1"
    by (simp add: contains_validbox L_ramp_def)
  have "fv_update flux_model L_ramp s_saw 0 (N_arr s_saw) 1 1 1
      = saw 1 - (12 / 5 * (saw 1 + 2 / 5 * ave (saw 1 - saw (1 - 1)) (saw (1 + 1) - saw 1))
                    - 12 / 5 * (saw (1 - 1)
                        + 2 / 5 * ave (saw (1 - 1) - saw (1 - 2)) (saw 1 - saw (1 - 1)))) / 12"
    by (rule fv_update_profile) (simp_all add: L_ramp_def saw_nodes saw_nonzero)
  also have "\<dots> = 43 / 25" by (simp add: saw_def ave_def)
  finally show ?thesis by (simp add: AdvectivePush_Muscl_valid [OF v])
qed

lemma ramp_step:
  assumes "contains (validbox L_ramp) i j k"
  shows "N_arr (AdvectivePush_Muscl flux_model L_ramp t0 s_ramp) i j k
           = ramp i - (12 / 5 * (ramp i + 2 / 5 * ave (ramp i - ramp (i - 1)) (ramp (i + 1) - ramp i))
                    - 12 / 5 * (ramp (i - 1)
                        + 2 / 5 * ave (ramp (i - 1) - ramp (i - 2)) (ramp i - ramp (i - 1)))) / 12"
  by (simp only: AdvectivePush_Muscl_valid [OF assms] ramp_fv_update [OF assms])

text \<open>
  Claim C1, as stated, fails. The state \<open>s_ramp\<close> is a state of the periodic level
  \<open>L_ramp\<close> as \<open>InitData\<close> leaves it, with its guard nodes filled and a nonzero density
  everywhere; the nodes \<open>0, 1, 2, 3\<close> of a row along \<open>x\<close> carry the densities
  \<open>1, 2, 3, 4\<close>, so the last node differs from the first, whose periodic image it is.
  One call of \<open>AdvectivePush_Muscl\<close>, with the limiter and the flux of the
  specification, changes the sum of \<open>N\<close> over the owned nodes from 54 to \<open>54 - 18/25\<close>:
  the flux through the last face of a row is computed from the node \<open>hi\<close>, the flux
  through the face before the first cell from the guard nodes, and the two differ.
  The row becomes \<open>7/5, 43/25, 14/5, 97/25\<close>, so the sum also changes when it is taken
  over the nodes \<open>1, 2, 3\<close> or over all four nodes of each row.
\<close>

theorem mass_not_conserved:
  "nonzero_density L_ramp s_ramp \<and>
   total_owned L_ramp (N_arr s_ramp) = 54 \<and>
   total_owned L_ramp (N_arr (AdvectivePush_Muscl flux_model L_ramp t_demo s_ramp)) = 54 - 18 / 25 \<and>
   N_arr s_ramp 0 1 1 = 1 \<and> N_arr s_ramp 1 1 1 = 2 \<and>
   N_arr s_ramp 2 1 1 = 3 \<and> N_arr s_ramp 3 1 1 = 4 \<and>
   N_arr (AdvectivePush_Muscl flux_model L_ramp t_demo s_ramp) 0 1 1 = 7 / 5 \<and>
   N_arr (AdvectivePush_Muscl flux_model L_ramp t_demo s_ramp) 1 1 1 = 43 / 25 \<and>
   N_arr (AdvectivePush_Muscl flux_model L_ramp t_demo s_ramp) 2 1 1 = 14 / 5 \<and>
   N_arr (AdvectivePush_Muscl flux_model L_ramp t_demo s_ramp) 3 1 1 = 97 / 25"
proof -
  have "profile_node s_ramp ramp 0 1 1" "profile_node s_ramp ramp 1 1 1"
    "profile_node s_ramp ramp 2 1 1" "profile_node s_ramp ramp 3 1 1"
    by (rule ramp_nodes; simp)+
  then have before: "N_arr s_ramp 0 1 1 = 1" "N_arr s_ramp 1 1 1 = 2"
    "N_arr s_ramp 2 1 1 = 3" "N_arr s_ramp 3 1 1 = 4"
    by (simp_all add: profile_node_def ramp_values)
  have v: "contains (validbox L_ramp) 0 1 1" "contains (validbox L_ramp) 1 1 1"
    "contains (validbox L_ramp) 2 1 1" "contains (validbox L_ramp) 3 1 1"
    by (simp_all add: contains_validbox L_ramp_def)
  have after: "N_arr (AdvectivePush_Muscl flux_model L_ramp t_demo s_ramp) 0 1 1 = 7 / 5"
    "N_arr (AdvectivePush_Muscl flux_model L_ramp t_demo s_ramp) 1 1 1 = 43 / 25"
    "N_arr (AdvectivePush_Muscl flux_model L_ramp t_demo s_ramp) 2 1 1 = 14 / 5"
    "N_arr (AdvectivePush_Muscl flux_model L_ramp t_demo s_ramp) 3 1 1 = 97 / 25"
    by (simp_all add: ramp_step [OF v(1)] ramp_step [OF v(2)] ramp_step [OF v(3)]
        ramp_step [OF v(4)] ramp_values ave_def)
  show ?thesis
    by (simp only: nonzero_ramp ramp_total_before ramp_total_after before after simp_thms)
qed

text \<open>
  Claim C1, amended. Let the state be periodic on the patch and its halo: every node
  of the patch and of its halo of width 2 holds, for each of the four moments, the
  value of the owned node it is an image of; so the guard nodes are as the boundary
  fill leaves them and, in addition, the last node of the patch in each direction
  equals the first. Let the density be nonzero on the patch grown by one node, where
  the step divides by it. Then one call of \<open>AdvectivePush_Muscl\<close> leaves the sum of \<open>N\<close>
  over the owned nodes unchanged: the flux through a face leaves one cell and enters
  its neighbour, and the fluxes through the first and the last face of a row
  coincide. The arithmetic is exact (real numbers) and the flux function is
  arbitrary.
\<close>

theorem mass_conservation:
  assumes "periodic_state L s" and "nonzero_density L s"
  shows "total_owned L (N_arr (AdvectivePush_Muscl flux L t0 s)) = total_owned L (N_arr s)"
proof -
  have "total_owned L (N_arr (AdvectivePush_Muscl flux L t0 s)) = total_owned L (fv_update flux L s 0 (N_arr s))"
    by (rule total_cong) (rule AdvectivePush_Muscl_valid)
  also have "\<dots> = total_owned L (N_arr s)"
    by (rule total_fv_update [OF assms(1)])
  finally show ?thesis .
qed

theorem mass_conservation_witness:
  "periodic_state L_ramp s_saw \<and> nonzero_density L_ramp s_saw \<and>
   total_owned L_ramp (N_arr (AdvectivePush_Muscl flux_model L_ramp t_demo s_saw))
     = total_owned L_ramp (N_arr s_saw) \<and>
   N_arr s_saw 1 1 1 = 2 \<and>
   N_arr (AdvectivePush_Muscl flux_model L_ramp t_demo s_saw) 1 1 1 = 43 / 25"
  using mass_conservation [OF periodic_saw nonzero_saw, of flux_model t_demo]
    periodic_saw nonzero_saw saw_step [of t_demo]
  by (simp add: s_saw_def)

text \<open>
  The periodicity assumed above is kept by the step: on a level with at least
  one cell in each direction, the state after \<open>AdvectivePush_Muscl\<close> is periodic on the
  patch and its halo when the state before is. The last node of the patch and the
  first see the same stencil, so they receive the same update, and the boundary fill
  gives every guard node the value of its image.
\<close>

lemma face_flux_same:
  "same_cell s i j k i' j' k' \<Longrightarrow> same_cell s (i + 1) j k (i' + 1) j' k' \<Longrightarrow>
     face_flux_x flux L s n i j k = face_flux_x flux L s n i' j' k'"
  "same_cell s i j k i' j' k' \<Longrightarrow> same_cell s i (j + 1) k i' (j' + 1) k' \<Longrightarrow>
     face_flux_y flux L s n i j k = face_flux_y flux L s n i' j' k'"
  "same_cell s i j k i' j' k' \<Longrightarrow> same_cell s i j (k + 1) i' j' (k' + 1) \<Longrightarrow>
     face_flux_z flux L s n i j k = face_flux_z flux L s n i' j' k'"
  by (simp_all add: face_flux_x_def face_flux_y_def face_flux_z_def
      edge_minus_x_def edge_plus_x_def edge_minus_y_def edge_plus_y_def
      edge_minus_z_def edge_plus_z_def same_cell_quantities)

lemma fv_update_shift:
  assumes p: "periodic_state L s" and Q: "periodic_halo L Q"
    and lo: "lev_lo L = (lx, ly, lz)" and hi: "lev_hi L = (hx, hy, hz)"
    and v: "contains (validbox L) i j k"
    and w: "contains (validbox L) (i + a * (hx - lx)) (j + b * (hy - ly)) (k + c * (hz - lz))"
  shows "fv_update flux L s n Q i j k
           = fv_update flux L s n Q (i + a * (hx - lx)) (j + b * (hy - ly)) (k + c * (hz - lz))"
proof -
  let ?i = "i + a * (hx - lx)" and ?j = "j + b * (hy - ly)" and ?k = "k + c * (hz - lz)"
  from v have vb: "lx \<le> i" "i \<le> hx" "ly \<le> j" "j \<le> hy" "lz \<le> k" "k \<le> hz"
    by (simp_all add: contains_validbox lo hi)
  from w have wb: "lx \<le> ?i" "?i \<le> hx" "ly \<le> ?j" "?j \<le> hy" "lz \<le> ?k" "?k \<le> hz"
    by (simp_all add: contains_validbox lo hi)
  have sc: "same_cell s (i + di) (j + dj) (k + dk) (?i + di) (?j + dj) (?k + dk)"
    if "\<bar>di\<bar> \<le> 1" "\<bar>dj\<bar> \<le> 1" "\<bar>dk\<bar> \<le> 1" for di dj dk
  proof -
    from that have d: "- 1 \<le> di" "di \<le> 1" "- 1 \<le> dj" "dj \<le> 1" "- 1 \<le> dk" "dk \<le> 1"
      by linarith+
    have "same_cell s (i + di) (j + dj) (k + dk)
            (i + di + a * (hx - lx)) (j + dj + b * (hy - ly)) (k + dk + c * (hz - lz))"
      using d vb wb
      by (intro periodic_same_cell [OF p lo hi]) (simp_all add: contains_grow1 lo hi)
    moreover have "i + di + a * (hx - lx) = i + a * (hx - lx) + di"
      "j + dj + b * (hy - ly) = j + b * (hy - ly) + dj"
      "k + dk + c * (hz - lz) = k + c * (hz - lz) + dk" by simp_all
    ultimately show ?thesis by (simp only:)
  qed
  note c0 = sc [of 0 0 0, simplified]
  note xp = sc [of 1 0 0, simplified] and xm = sc [of "- 1" 0 0, simplified]
  note yp = sc [of 0 1 0, simplified] and ym = sc [of 0 "- 1" 0, simplified]
  note zp = sc [of 0 0 1, simplified] and zm = sc [of 0 0 "- 1", simplified]
  have Fx: "face_flux_x flux L s n i j k = face_flux_x flux L s n ?i ?j ?k"
    by (rule face_flux_same(1) [OF c0 xp])
  have Fxm: "face_flux_x flux L s n (i - 1) j k = face_flux_x flux L s n (?i - 1) ?j ?k"
    using c0 by (intro face_flux_same(1) [OF xm]) simp
  have Fy: "face_flux_y flux L s n i j k = face_flux_y flux L s n ?i ?j ?k"
    by (rule face_flux_same(2) [OF c0 yp])
  have Fym: "face_flux_y flux L s n i (j - 1) k = face_flux_y flux L s n ?i (?j - 1) ?k"
    using c0 by (intro face_flux_same(2) [OF ym]) simp
  have Fz: "face_flux_z flux L s n i j k = face_flux_z flux L s n ?i ?j ?k"
    by (rule face_flux_same(3) [OF c0 zp])
  have Fzm: "face_flux_z flux L s n i j (k - 1) = face_flux_z flux L s n ?i ?j (?k - 1)"
    using c0 by (intro face_flux_same(3) [OF zm]) simp
  have Qe: "Q i j k = Q ?i ?j ?k"
    using vb wb by (intro halo_shift [OF Q lo hi]) (simp_all add: contains_grow1 lo hi)
  show ?thesis
    unfolding fv_update_def Fx Fxm Fy Fym Fz Fzm Qe by (rule refl)
qed

lemma wrap_as_shift: "wrap lo hi i = i + (- ((i - lo) div (hi - lo))) * (hi - lo)"
proof -
  have "(i - lo) mod (hi - lo) = (i - lo) - (i - lo) div (hi - lo) * (hi - lo)"
    by (rule minus_div_mult_eq_mod [symmetric])
  then show ?thesis by (simp add: wrap_def)
qed

lemma wrap_bounds:
  assumes "lo < hi"
  shows "lo \<le> wrap lo hi i \<and> wrap lo hi i < hi"
proof -
  from assms have "0 < hi - lo" by simp
  then have "0 \<le> (i - lo) mod (hi - lo)" "(i - lo) mod (hi - lo) < hi - lo"
    by (rule pos_mod_sign, rule pos_mod_bound)
  then show ?thesis unfolding wrap_def by linarith
qed

lemma periodic_image_shift:
  assumes "lo < hi"
  obtains a where "periodic_image lo hi i = i + a * (hi - lo)"
    and "lo \<le> periodic_image lo hi i" and "periodic_image lo hi i \<le> hi"
proof (cases "lo \<le> i \<and> i \<le> hi")
  case True
  then have "periodic_image lo hi i = i + 0 * (hi - lo)" by (simp add: periodic_image_def)
  with True that [of 0] show ?thesis by (simp add: periodic_image_def)
next
  case False
  then have e: "periodic_image lo hi i = wrap lo hi i" by (auto simp: periodic_image_def)
  have "periodic_image lo hi i = i + (- ((i - lo) div (hi - lo))) * (hi - lo)"
    unfolding e by (rule wrap_as_shift)
  moreover from wrap_bounds [OF assms, of i]
  have "lo \<le> periodic_image lo hi i" "periodic_image lo hi i \<le> hi" unfolding e by simp_all
  ultimately show ?thesis by (rule that)
qed

lemma FillBoundary_Q_update_periodic:
  assumes p: "periodic_state L s" and Q: "periodic_halo L Q"
    and lo: "lev_lo L = (lx, ly, lz)" and hi: "lev_hi L = (hx, hy, hz)"
    and pos: "lx < hx" "ly < hy" "lz < hz" and n: "n < 4"
  shows "periodic_halo L (FillBoundary L (Q_update flux L (predict L s t0) n Q))"
proof -
  let ?new = "FillBoundary L (Q_update flux L (predict L s t0) n Q)"
  have valid: "?new i j k = fv_update flux L s n Q i j k" if "contains (validbox L) i j k" for i j k
    using that by (simp add: FillBoundary_valid Q_update_valid [OF that n])
  have "?new i j k = ?new (wrap lx hx i) (wrap ly hy j) (wrap lz hz k)"
    if b: "i \<in> {lx - 2..hx + 2}" "j \<in> {ly - 2..hy + 2}" "k \<in> {lz - 2..hz + 2}" for i j k
  proof -
    from wrap_bounds [OF pos(1), of i] wrap_bounds [OF pos(2), of j] wrap_bounds [OF pos(3), of k]
    have w: "contains (validbox L) (wrap lx hx i) (wrap ly hy j) (wrap lz hz k)"
      by (simp add: contains_validbox lo hi)
    obtain pi pj pk where v: "contains (validbox L) pi pj pk"
      and e: "?new i j k = fv_update flux L s n Q pi pj pk"
      and sh: "\<exists>a. pi = i + a * (hx - lx)" "\<exists>a. pj = j + a * (hy - ly)"
        "\<exists>a. pk = k + a * (hz - lz)"
    proof (cases "contains (validbox L) i j k")
      case True
      have "i = i + 0 * (hx - lx)" "j = j + 0 * (hy - ly)" "k = k + 0 * (hz - lz)" by simp_all
      then have "\<exists>a. i = i + a * (hx - lx)" "\<exists>a. j = j + a * (hy - ly)"
        "\<exists>a. k = k + a * (hz - lz)" by blast+
      with that [of i j k] True valid [OF True] show ?thesis by blast
    next
      case False
      obtain a1 where i1: "periodic_image lx hx i = i + a1 * (hx - lx)"
        "lx \<le> periodic_image lx hx i" "periodic_image lx hx i \<le> hx"
        by (rule periodic_image_shift [OF pos(1), of i])
      obtain a2 where i2: "periodic_image ly hy j = j + a2 * (hy - ly)"
        "ly \<le> periodic_image ly hy j" "periodic_image ly hy j \<le> hy"
        by (rule periodic_image_shift [OF pos(2), of j])
      obtain a3 where i3: "periodic_image lz hz k = k + a3 * (hz - lz)"
        "lz \<le> periodic_image lz hz k" "periodic_image lz hz k \<le> hz"
        by (rule periodic_image_shift [OF pos(3), of k])
      let ?pi = "periodic_image lx hx i" and ?pj = "periodic_image ly hy j"
        and ?pk = "periodic_image lz hz k"
      have v: "contains (validbox L) ?pi ?pj ?pk"
        using i1 i2 i3 by (simp add: contains_validbox lo hi)
      from b have g: "contains (grow (validbox L) 2) i j k"
        by (simp add: contains_grow1 lo hi)
      have "?new i j k = Q_update flux L (predict L s t0) n Q ?pi ?pj ?pk"
        using False g by (simp add: FillBoundary_def lo hi)
      also have "\<dots> = fv_update flux L s n Q ?pi ?pj ?pk"
        by (rule Q_update_valid [OF v n])
      finally have "?new i j k = fv_update flux L s n Q ?pi ?pj ?pk" .
      with that [of ?pi ?pj ?pk] v i1(1) i2(1) i3(1) show ?thesis by blast
    qed
    from sh obtain a1 a2 a3 where s1: "pi = i + a1 * (hx - lx)" and s2: "pj = j + a2 * (hy - ly)"
      and s3: "pk = k + a3 * (hz - lz)" by blast
    define c1 where "c1 = - ((i - lx) div (hx - lx)) - a1"
    define c2 where "c2 = - ((j - ly) div (hy - ly)) - a2"
    define c3 where "c3 = - ((k - lz) div (hz - lz)) - a3"
    have t: "wrap lx hx i = pi + c1 * (hx - lx)" "wrap ly hy j = pj + c2 * (hy - ly)"
      "wrap lz hz k = pk + c3 * (hz - lz)"
      unfolding wrap_as_shift s1 s2 s3 c1_def c2_def c3_def by (simp_all add: algebra_simps)
    have "fv_update flux L s n Q pi pj pk
        = fv_update flux L s n Q (pi + c1 * (hx - lx)) (pj + c2 * (hy - ly)) (pk + c3 * (hz - lz))"
      using w unfolding t by (intro fv_update_shift [OF p Q lo hi v])
    moreover have "?new (wrap lx hx i) (wrap ly hy j) (wrap lz hz k)
        = fv_update flux L s n Q (wrap lx hx i) (wrap ly hy j) (wrap lz hz k)"
      by (rule valid [OF w])
    ultimately show ?thesis
      unfolding e t by (simp only:)
  qed
  then show ?thesis by (simp add: periodic_halo_def lo hi)
qed

lemma AdvectivePush_Muscl_periodic:
  assumes p: "periodic_state L s"
    and lo: "lev_lo L = (lx, ly, lz)" and hi: "lev_hi L = (hx, hy, hz)"
    and pos: "lx < hx" "ly < hy" "lz < hz"
  shows "periodic_state L (AdvectivePush_Muscl flux L t0 s)"
  using p
  by (simp add: periodic_state_def AdvectivePush_Muscl_def Let_def update_def
      FillBoundary_Q_update_periodic [OF p _ lo hi pos])

lemma par_bounds: "0 < p \<Longrightarrow> 0 \<le> par p \<and> par p < p"
  by (simp add: par_def)

lemma par_child: "par p = j \<longleftrightarrow> p = 2 * j + 1 \<or> p = 2 * j + 2"
  by (simp add: par_def) linarith

lemma heap_mono: "max_heap K m \<Longrightarrow> m' \<le> m \<Longrightarrow> max_heap K m'"
  by (simp add: max_heap_def)

lemma heap_root_max:
  assumes h: "max_heap K m"
  shows "0 \<le> p \<Longrightarrow> p < m \<Longrightarrow> K p \<le> K 0"
proof (induction "nat p" arbitrary: p rule: less_induct)
  case less
  show ?case
  proof (cases "p = 0")
    case True
    then show ?thesis by simp
  next
    case False
    with less.prems have p: "0 < p" by simp
    from par_bounds [OF p] have q: "0 \<le> par p" "par p < p" by simp_all
    from h p less.prems have "K p \<le> K (par p)" by (simp add: max_heap_def)
    moreover have "K (par p) \<le> K 0"
      using q less.prems by (intro less.hyps) simp_all
    ultimately show ?thesis by simp
  qed
qed

lemma up_inv_start:
  assumes "max_heap K i"
  shows "up_inv K (i + 1) i"
  unfolding up_inv_def
proof (intro conjI allI impI)
  fix p assume "0 < p \<and> p < i + 1 \<and> p \<noteq> i"
  with assms show "K p \<le> K (par p)" by (simp add: max_heap_def)
next
  fix p assume a: "0 < p \<and> p < i + 1 \<and> par p = i \<and> 0 < i"
  with par_bounds [of p] have False by simp
  then show "K p \<le> K (par i)" ..
qed

lemma up_inv_exit:
  assumes "up_inv K m j" and "\<not> 0 < j \<or> \<not> K j > K (par j)"
  shows "max_heap K m"
  unfolding max_heap_def
proof (intro allI impI)
  fix p assume p: "0 < p \<and> p < m"
  show "K p \<le> K (par p)"
  proof (cases "p = j")
    case True
    with assms(2) p show ?thesis by auto
  next
    case False
    with assms(1) p show ?thesis by (simp add: up_inv_def)
  qed
qed

lemma up_inv_step:
  assumes inv: "up_inv K m j" and j: "0 < j" "j < m" and gt: "K j > K (par j)"
    and K': "K' = K(j := K (par j), par j := K j)"
  shows "up_inv K' m (par j)"
proof -
  define q where "q = par j"
  from par_bounds [OF j(1)] have q: "0 \<le> q" "q < j" by (simp_all add: q_def)
  from inv have A: "\<And>p. 0 < p \<Longrightarrow> p < m \<Longrightarrow> p \<noteq> j \<Longrightarrow> K p \<le> K (par p)"
    and B: "\<And>p. 0 < p \<Longrightarrow> p < m \<Longrightarrow> par p = j \<Longrightarrow> K p \<le> K q"
    using j by (simp_all add: up_inv_def q_def)
  have K'j: "K' j = K q" and K'q: "K' q = K j"
    and K'o: "\<And>p. p \<noteq> j \<Longrightarrow> p \<noteq> q \<Longrightarrow> K' p = K p"
    using q by (simp_all add: K' q_def [symmetric])
  have "K' p \<le> K' (par p)" if p: "0 < p" "p < m" "p \<noteq> q" for p
  proof (cases "p = j")
    case True
    with gt show ?thesis by (simp add: K'j K'q q_def [symmetric])
  next
    case False
    note pj = this
    have Kp: "K' p = K p" using pj p by (simp add: K'o)
    consider "par p = j" | "par p = q" | "par p \<noteq> j" "par p \<noteq> q" by blast
    then show ?thesis
    proof cases
      case 1
      with B [OF p(1,2)] show ?thesis by (simp add: Kp K'j)
    next
      case 2
      with A [OF p(1,2) pj] gt show ?thesis by (simp add: Kp K'q q_def [symmetric])
    next
      case 3
      with A [OF p(1,2) pj] show ?thesis by (simp add: Kp K'o)
    qed
  qed
  moreover have "K' p \<le> K' (par q)" if p: "0 < p" "p < m" "par p = q" "0 < q" for p
  proof -
    from par_bounds [OF p(4)] q have pq: "par q \<noteq> j" "par q \<noteq> q" by simp_all
    from p(4) q j have Aq: "K q \<le> K (par q)" by (intro A) simp_all
    from par_bounds [OF p(1)] p(3) have pnq: "p \<noteq> q" by simp
    show ?thesis
    proof (cases "p = j")
      case True
      with Aq show ?thesis by (simp add: K'j K'o [OF pq])
    next
      case False
      with A [OF p(1,2)] p(3) Aq pnq show ?thesis by (simp add: K'o pq)
    qed
  qed
  ultimately show ?thesis by (simp add: up_inv_def q_def [symmetric])
qed


lemma down_inv_start:
  assumes h: "max_heap K (i + 1)" and i: "0 < i" and K1: "K1 = K(0 := K i, i := K 0)"
  shows "down_inv K1 i 0"
  unfolding down_inv_def
proof (intro conjI allI impI)
  fix p assume p: "0 < p \<and> p < i \<and> par p \<noteq> 0"
  with par_bounds [of p] have "par p \<noteq> i" "p \<noteq> 0" "p \<noteq> i" by simp_all
  with p h show "K1 p \<le> K1 (par p)" by (simp add: K1 max_heap_def)
qed simp

lemma down_inv_exit:
  assumes "down_inv K m j" and "m \<le> j"
  shows "max_heap K m"
  unfolding max_heap_def
proof (intro allI impI)
  fix p assume p: "0 < p \<and> p < m"
  with par_bounds [of p] assms(2) have "par p \<noteq> j" by simp
  with assms(1) p show "K p \<le> K (par p)" by (simp add: down_inv_def)
qed

lemma down_inv_step:
  assumes inv: "down_inv K m j" and j: "0 \<le> j" "j < m"
    and index: "index = (if 2 * j + 1 + 1 < m \<and> K (2 * j + 1) < K (2 * j + 1 + 1)
                         then 2 * j + 1 + 1 else 2 * j + 1)"
    and K': "K' = (if index < m \<and> K j < K index then K(j := K index, index := K j) else K)"
  shows "down_inv K' m index"
proof -
  from inv have A: "\<And>p. 0 < p \<Longrightarrow> p < m \<Longrightarrow> par p \<noteq> j \<Longrightarrow> K p \<le> K (par p)"
    and B: "\<And>p. 0 < p \<Longrightarrow> p < m \<Longrightarrow> par p = j \<Longrightarrow> 0 < j \<Longrightarrow> K p \<le> K (par j)"
    by (simp_all add: down_inv_def)
  define c1 where "c1 = 2 * j + 1"
  define c2 where "c2 = 2 * j + 2"
  have c12: "c2 = c1 + 1" "j < c1" "0 < c1" using j by (simp_all add: c1_def c2_def)
  have e: "2 * j + 1 = c1" by (simp add: c1_def)
  have index': "index = (if c2 < m \<and> K c1 < K c2 then c2 else c1)"
    unfolding index e c12(1) ..
  have pc: "par p = j \<longleftrightarrow> p = c1 \<or> p = c2" for p
    by (simp add: par_child c1_def c2_def)
  from index' c12 have ix: "index = c1 \<or> index = c2" "j < index" "0 < index"
    by (auto split: if_splits)
  then have pix: "par index = j" by (simp add: pc)
  \<comment> \<open>the chosen child carries the larger key of the children inside the heap\<close>
  have child: "K p \<le> K index" if "0 < p" "p < m" "par p = j" for p
    using that c12(1) unfolding pc index' by (auto split: if_splits)
  have inside: "index < m" if "0 < p" "p < m" "par p = j" for p
    using that c12(1) unfolding pc index' by (auto split: if_splits)
  show ?thesis
  proof (cases "index < m \<and> K j < K index")
    case False
    then have K'K: "K' = K" unfolding K' by (simp only: if_False)
    show ?thesis
      unfolding down_inv_def K'K
    proof (intro conjI allI impI)
      fix p assume p: "0 < p \<and> p < m \<and> par p \<noteq> index"
      show "K p \<le> K (par p)"
      proof (cases "par p = j")
        case True
        with p child [of p] inside [of p] False show ?thesis by auto
      next
        case False
        with p A show ?thesis by simp
      qed
    next
      fix p assume p: "0 < p \<and> p < m \<and> par p = index \<and> 0 < index"
      with par_bounds [of p] have im: "index < m" by simp
      from p ix have "K p \<le> K (par p)" by (intro A) simp_all
      with p im False show "K p \<le> K (par index)" by (simp add: pix)
    qed
  next
    case True
    then have K'sw: "K' = K(j := K index, index := K j)" by (simp add: K')
    from ix have K'j: "K' j = K index" and K'i: "K' index = K j"
      and K'o: "\<And>p. p \<noteq> j \<Longrightarrow> p \<noteq> index \<Longrightarrow> K' p = K p"
      by (simp_all add: K'sw)
    show ?thesis
      unfolding down_inv_def
    proof (intro conjI allI impI)
      fix p assume p: "0 < p \<and> p < m \<and> par p \<noteq> index"
      consider "p = index" | "p = j" | "p \<noteq> index" "p \<noteq> j" by blast
      then show "K' p \<le> K' (par p)"
      proof cases
        case 1
        with True show ?thesis by (simp add: pix K'j K'i)
      next
        case 2
        with p have j0: "0 < j" by simp
        from par_bounds [OF j0] ix have "par j \<noteq> j" "par j \<noteq> index" by simp_all
        then have "K' (par j) = K (par j)" by (simp add: K'o)
        moreover from True ix pix j0 have "K index \<le> K (par j)" by (intro B) simp_all
        ultimately show ?thesis using 2 by (simp add: K'j)
      next
        case 3
        then have Kp: "K' p = K p" by (simp add: K'o)
        show ?thesis
        proof (cases "par p = j")
          case True
          with p child [of p] show ?thesis by (simp add: Kp K'j)
        next
          case False
          with p have "K' (par p) = K (par p)" by (simp add: K'o)
          with False p A show ?thesis by (simp add: Kp)
        qed
      qed
    next
      fix p assume p: "0 < p \<and> p < m \<and> par p = index \<and> 0 < index"
      with par_bounds [of p] ix have "p \<noteq> j" "p \<noteq> index" by simp_all
      then have Kp: "K' p = K p" by (simp add: K'o)
      from p ix have "K p \<le> K (par p)" by (intro A) simp_all
      with p show "K' p \<le> K' (par index)" by (simp add: Kp pix K'j)
    qed
  qed
qed

lemma down_step_frame:
  assumes j: "0 \<le> j" "j < m"
    and index: "index = (if 2 * j + 1 + 1 < m \<and> K (2 * j + 1) < K (2 * j + 1 + 1)
                         then 2 * j + 1 + 1 else 2 * j + 1)"
    and K': "K' = (if index < m \<and> K j < K index then K(j := K index, index := K j) else K)"
  shows "\<forall>p. m \<le> p \<longrightarrow> K' p = K p" and "\<forall>b. keys_below K m b \<longrightarrow> keys_below K' m b"
proof -
  from index j have ix: "0 < index" by (auto split: if_splits)
  show "\<forall>p. m \<le> p \<longrightarrow> K' p = K p" using j by (auto simp: K')
  show "\<forall>b. keys_below K m b \<longrightarrow> keys_below K' m b"
    using j ix by (auto simp: K' keys_below_def)
qed

lemma rd_seg:
  assumes "int (length pre) = start" and "0 \<le> p" and "p < int (length sg)"
  shows "rd (pre @ sg @ post) (p + start) = Some (sg ! nat p)"
proof -
  from assms have "nat (p + start) = length pre + nat p" "nat p < length sg" by simp_all
  with assms show ?thesis by (simp add: rd_def nth_append)
qed

lemma bin_at_seg:
  assumes "int (length pre) = start" and "0 \<le> p" and "p < int (length sg)"
    and "valid_keys sg bin_array"
  shows "bin_at (pre @ sg @ post) bin_array (p + start) = Some (keyf sg bin_array p)"
proof -
  from assms(2,3) have "sg ! nat p \<in> set sg" by simp
  with assms(4) have "0 \<le> sg ! nat p \<and> sg ! nat p < int (length bin_array)"
    by (simp add: valid_keys_def)
  with assms show ?thesis by (simp add: bin_at_def rd_seg keyf_def) (simp add: rd_def)
qed

lemma wr_seg:
  assumes "int (length pre) = start" and "0 \<le> p" and "p < int (length sg)"
  shows "wr (pre @ sg @ post) (p + start) v = Some (pre @ sg[nat p := v] @ post)"
proof -
  from assms have "nat (p + start) = length pre + nat p" "nat p < length sg" by simp_all
  with assms show ?thesis by (simp add: wr_def list_update_append)
qed

lemma swap_seg:
  assumes s: "int (length pre) = start"
    and a: "0 \<le> a" "a < int (length sg)" and b: "0 \<le> b" "b < int (length sg)"
  shows "swap (pre @ sg @ post) (a + start) (b + start)
           = Some (pre @ sg[nat b := sg ! nat a, nat a := sg ! nat b] @ post)"
  using a b by (simp add: swap_def rd_seg [OF s] wr_seg [OF s])

lemma keyf_swap:
  assumes a: "0 \<le> a" "a < int (length sg)" and b: "0 \<le> b" "b < int (length sg)"
  shows "keyf (sg[nat b := sg ! nat a, nat a := sg ! nat b]) bin_array
           = (keyf sg bin_array)(a := keyf sg bin_array b, b := keyf sg bin_array a)"
proof
  fix p
  let ?sg' = "sg[nat b := sg ! nat a, nat a := sg ! nat b]"
  have len: "length ?sg' = length sg" by simp
  show "keyf ?sg' bin_array p
           = ((keyf sg bin_array)(a := keyf sg bin_array b, b := keyf sg bin_array a)) p"
  proof (cases "0 \<le> p \<and> p < int (length sg)")
    case False
    with a b have "p \<noteq> a" "p \<noteq> b" by auto
    with False show ?thesis unfolding keyf_def len by auto
  next
    case True
    with a b have e: "nat p = nat a \<longleftrightarrow> p = a" "nat p = nat b \<longleftrightarrow> p = b" by auto
    from True a b have l: "nat p < length sg" "nat a < length sg" "nat b < length sg" by auto
    have "?sg' ! nat p = (if p = a then sg ! nat b else if p = b then sg ! nat a else sg ! nat p)"
      using l e by (simp add: nth_list_update eq_commute [of "nat a"] eq_commute [of "nat b"])
    with True a b show ?thesis unfolding keyf_def len by simp
  qed
qed

lemma mset_swap_seg:
  assumes "0 \<le> a" "a < int (length sg)" "0 \<le> b" "b < int (length sg)"
  shows "mset (sg[nat b := sg ! nat a, nat a := sg ! nat b]) = mset sg"
  using assms by (intro mset_swap) simp_all

lemma valid_keys_mset:
  assumes "mset sg' = mset sg"
  shows "valid_keys sg' bin_array = valid_keys sg bin_array"
proof -
  from assms have "set sg' = set sg" by (rule mset_eq_setD)
  then show ?thesis by (simp add: valid_keys_def)
qed

lemma length_mset_eq: "mset sg' = mset sg \<Longrightarrow> length sg' = length sg"
  by (rule mset_eq_length)

lemma int32_eq: "INT_MIN \<le> x \<Longrightarrow> x \<le> INT_MAX \<Longrightarrow> int32 x = Some x"
  by (simp add: int32_def)

lemma INT_MIN_neg: "INT_MIN \<le> 0"
  by (simp add: INT_MIN_def)

lemma sift_up_correct:
  assumes s: "int (length pre) = start"
    and fit: "start + int (length sg0) \<le> INT_MAX + 1"
  shows "valid_keys sg bin_array \<Longrightarrow> 0 \<le> j \<Longrightarrow> j < m \<Longrightarrow> m \<le> int (length sg) \<Longrightarrow>
         length sg = length sg0 \<Longrightarrow>
         up_inv (keyf sg bin_array) m j \<Longrightarrow>
         \<exists>sg'. sift_up (pre @ sg @ post) bin_array start j = Some (pre @ sg' @ post) \<and>
               mset sg' = mset sg \<and> max_heap (keyf sg' bin_array) m"
proof (induction "nat j" arbitrary: j sg rule: less_induct)
  case less
  let ?K = "keyf sg bin_array"
  from s have s0: "0 \<le> start" by auto
  show ?case
  proof (cases "0 < j")
    case False
    then have "sift_up (pre @ sg @ post) bin_array start j = Some (pre @ sg @ post)"
      by (subst sift_up.simps) simp
    moreover from less.prems(6) False have "max_heap ?K m" by (intro up_inv_exit [of ?K m j]) auto
    ultimately show ?thesis by auto
  next
    case j0: True
    from par_bounds [OF j0] less.prems have q: "0 \<le> par j" "par j < int (length sg)" "par j < m"
      by simp_all
    from less.prems have jl: "0 \<le> j" "j < int (length sg)" by simp_all
    have c: "int32 (j + start) = Some (j + start)"
      using jl s0 fit less.prems(5) INT_MIN_neg by (intro int32_eq) simp_all
    have j1: "int32 (j - 1) = Some (j - 1)"
      using j0 jl s0 fit less.prems(5) INT_MIN_neg by (intro int32_eq) simp_all
    have p: "int32 (par j + start) = Some (par j + start)"
      using q s0 fit less.prems(5) INT_MIN_neg by (intro int32_eq) simp_all
    have kc: "bin_at (pre @ sg @ post) bin_array (j + start) = Some (?K j)"
      by (rule bin_at_seg [OF s jl less.prems(1)])
    have kp: "bin_at (pre @ sg @ post) bin_array (par j + start) = Some (?K (par j))"
      by (rule bin_at_seg [OF s q(1,2) less.prems(1)])
    show ?thesis
    proof (cases "?K j > ?K (par j)")
      case False
      have "sift_up (pre @ sg @ post) bin_array start j = Some (pre @ sg @ post)"
        by (subst sift_up.simps)
           (simp only: j0 if_True c j1 par_def [symmetric] p kc kp False if_False
              Option.bind.bind_lunit)
      moreover from less.prems(6) False have "max_heap ?K m"
        by (intro up_inv_exit [of ?K m j]) auto
      ultimately show ?thesis by auto
    next
      case gt: True
      define sg1 where "sg1 = sg[nat (par j) := sg ! nat j, nat j := sg ! nat (par j)]"
      have m1: "mset sg1 = mset sg"
        unfolding sg1_def by (rule mset_swap_seg [OF jl q(1,2)])
      have K1: "keyf sg1 bin_array = ?K(j := ?K (par j), par j := ?K j)"
        unfolding sg1_def by (rule keyf_swap [OF jl q(1,2)])
      have sw: "swap (pre @ sg @ post) (j + start) (par j + start) = Some (pre @ sg1 @ post)"
        unfolding sg1_def by (rule swap_seg [OF s jl q(1,2)])
      have unf: "sift_up (pre @ sg @ post) bin_array start j
          = sift_up (pre @ sg1 @ post) bin_array start (par j)"
        by (subst sift_up.simps)
           (simp only: j0 if_True c j1 par_def [symmetric] p kc kp gt sw
              Option.bind.bind_lunit)
      have "\<exists>sg'. sift_up (pre @ sg1 @ post) bin_array start (par j) = Some (pre @ sg' @ post) \<and>
                 mset sg' = mset sg1 \<and> max_heap (keyf sg' bin_array) m"
      proof (rule less.hyps)
        show "nat (par j) < nat j" using par_bounds [OF j0] by simp
        show "valid_keys sg1 bin_array" using less.prems(1) by (simp add: valid_keys_mset [OF m1])
        show "0 \<le> par j" "par j < m" by (rule q)+
        show "m \<le> int (length sg1)" using less.prems(4) by (simp add: length_mset_eq [OF m1])
        show "length sg1 = length sg0" using less.prems(5) by (simp add: length_mset_eq [OF m1])
        show "up_inv (keyf sg1 bin_array) m (par j)"
          by (rule up_inv_step [OF less.prems(6) j0 less.prems(3) gt K1])
      qed
      then show ?thesis by (auto simp: unf m1)
    qed
  qed
qed

lemma build_heap_correct:
  assumes s: "int (length pre) = start"
    and fit: "start + n \<le> INT_MAX + 1" "n \<le> INT_MAX"
  shows "valid_keys sg bin_array \<Longrightarrow> n = int (length sg) \<Longrightarrow> 1 \<le> i \<Longrightarrow>
         max_heap (keyf sg bin_array) i \<Longrightarrow>
         \<exists>sg'. build_heap (pre @ sg @ post) bin_array start n i = Some (pre @ sg' @ post) \<and>
               mset sg' = mset sg \<and> max_heap (keyf sg' bin_array) n"
proof (induction "nat (n - i)" arbitrary: i sg rule: less_induct)
  case less
  from s have s0: "0 \<le> start" by auto
  show ?case
  proof (cases "i < n")
    case False
    then have "build_heap (pre @ sg @ post) bin_array start n i = Some (pre @ sg @ post)"
      by (subst build_heap.simps) (simp only: if_False)
    moreover have "max_heap (keyf sg bin_array) n"
      using heap_mono [OF less.prems(4), of n] False by simp
    ultimately show ?thesis by auto
  next
    case True
    have "\<exists>sg1. sift_up (pre @ sg @ post) bin_array start i = Some (pre @ sg1 @ post) \<and>
               mset sg1 = mset sg \<and> max_heap (keyf sg1 bin_array) (i + 1)"
    proof (rule sift_up_correct [OF s, of sg])
      show "start + int (length sg) \<le> INT_MAX + 1" using fit less.prems(2) by simp
      show "valid_keys sg bin_array" by (rule less.prems(1))
      show "0 \<le> i" "i < i + 1" using less.prems(3) by simp_all
      show "i + 1 \<le> int (length sg)" using True less.prems(2) by simp
      show "length sg = length sg" by simp
      show "up_inv (keyf sg bin_array) (i + 1) i" by (rule up_inv_start [OF less.prems(4)])
    qed
    then obtain sg1 where u: "sift_up (pre @ sg @ post) bin_array start i = Some (pre @ sg1 @ post)"
      and m1: "mset sg1 = mset sg" and h1: "max_heap (keyf sg1 bin_array) (i + 1)" by blast
    have i1: "int32 (i + 1) = Some (i + 1)"
      using True less.prems(3) fit s0 INT_MIN_neg by (intro int32_eq) simp_all
    have "\<exists>sg'. build_heap (pre @ sg1 @ post) bin_array start n (i + 1) = Some (pre @ sg' @ post) \<and>
               mset sg' = mset sg1 \<and> max_heap (keyf sg' bin_array) n"
    proof (rule less.hyps)
      show "nat (n - (i + 1)) < nat (n - i)" using True by simp
      show "valid_keys sg1 bin_array" using less.prems(1) by (simp add: valid_keys_mset [OF m1])
      show "n = int (length sg1)" using less.prems(2) by (simp add: length_mset_eq [OF m1])
      show "1 \<le> i + 1" using less.prems(3) by simp
      show "max_heap (keyf sg1 bin_array) (i + 1)" by (rule h1)
    qed
    then obtain sg' where r: "build_heap (pre @ sg1 @ post) bin_array start n (i + 1) = Some (pre @ sg' @ post)"
      "mset sg' = mset sg1" "max_heap (keyf sg' bin_array) n" by blast
    have "build_heap (pre @ sg @ post) bin_array start n i
        = build_heap (pre @ sg1 @ post) bin_array start n (i + 1)"
      by (subst build_heap.simps [of "pre @ sg @ post"])
         (simp only: True if_True u i1 Option.bind.bind_lunit)
    with r m1 show ?thesis by (intro exI [of _ sg']) (simp only: simp_thms)
  qed
qed

lemma sift_down_correct:
  assumes s: "int (length pre) = start"
    and fit: "start + i \<le> INT_MAX + 1" "2 * i \<le> INT_MAX"
  shows "valid_keys sg bin_array \<Longrightarrow> 0 \<le> j \<Longrightarrow> i \<le> int (length sg) \<Longrightarrow>
         down_inv (keyf sg bin_array) i j \<Longrightarrow>
         \<exists>sg'. sift_down (pre @ sg @ post) bin_array start i j = Some (pre @ sg' @ post) \<and>
               mset sg' = mset sg \<and> max_heap (keyf sg' bin_array) i \<and>
               (\<forall>p. i \<le> p \<longrightarrow> keyf sg' bin_array p = keyf sg bin_array p) \<and>
               (\<forall>b. keys_below (keyf sg bin_array) i b \<longrightarrow> keys_below (keyf sg' bin_array) i b)"
proof (induction "nat (i - j)" arbitrary: j sg rule: less_induct)
  case less
  let ?K = "keyf sg bin_array"
  from s have s0: "0 \<le> start" by auto
  show ?case
  proof (cases "j < i")
    case False
    then have "sift_down (pre @ sg @ post) bin_array start i j = Some (pre @ sg @ post)"
      by (subst sift_down.simps) simp
    moreover from less.prems(4) False have "max_heap ?K i" by (intro down_inv_exit [of _ _ j]) simp_all
    ultimately show ?thesis by auto
  next
    case True
    define index where "index = (if 2 * j + 1 + 1 < i \<and> ?K (2 * j + 1) < ?K (2 * j + 1 + 1)
                                 then 2 * j + 1 + 1 else 2 * j + 1)"
    define sg1 where "sg1 = (if index < i \<and> ?K j < ?K index
                             then sg[nat index := sg ! nat j, nat j := sg ! nat index] else sg)"
    define K1 where "K1 = (if index < i \<and> ?K j < ?K index
                           then ?K(j := ?K index, index := ?K j) else ?K)"
    from less.prems True have jl: "0 \<le> j" "j < int (length sg)" by simp_all
    have ix: "j < index" "0 \<le> index" using jl by (simp_all add: index_def)
    have m1: "mset sg1 = mset sg"
      unfolding sg1_def using jl ix less.prems(3) by (simp add: mset_swap_seg)
    have k1: "keyf sg1 bin_array = K1"
      unfolding sg1_def K1_def using jl ix less.prems(3) by (simp add: keyf_swap)
    \<comment> \<open>no overflow\<close>
    have d: "int32 (2 * j) = Some (2 * j)"
      using jl True fit INT_MIN_neg by (intro int32_eq) simp_all
    have i0: "int32 (2 * j + 1) = Some (2 * j + 1)"
      using jl True fit INT_MIN_neg by (intro int32_eq) simp_all
    have i1: "int32 (2 * j + 1 + 1) = Some (2 * j + 1 + 1)"
      using jl True fit INT_MIN_neg by (intro int32_eq) simp_all
    have pos: "int32 (p + start) = Some (p + start)" if "0 \<le> p" "p < i" for p
      using that s0 fit INT_MIN_neg by (intro int32_eq) simp_all
    \<comment> \<open>the choice of the child\<close>
    have choose: "(if 2 * j + 1 + 1 < i then
              do { pl \<leftarrow> int32 (2 * j + 1 + start);
                   pr \<leftarrow> int32 (2 * j + 1 + 1 + start);
                   kl \<leftarrow> bin_at (pre @ sg @ post) bin_array pl;
                   kr \<leftarrow> bin_at (pre @ sg @ post) bin_array pr;
                   Some (if kl < kr then 2 * j + 1 + 1 else 2 * j + 1) }
            else Some (2 * j + 1)) = Some index"
      using jl less.prems(1,3) by (simp add: pos bin_at_seg [OF s] index_def)
    \<comment> \<open>the conditional swap\<close>
    have exchange: "(if index < i then
              do { pj \<leftarrow> int32 (j + start);
                   pc \<leftarrow> int32 (index + start);
                   kj \<leftarrow> bin_at (pre @ sg @ post) bin_array pj;
                   ki \<leftarrow> bin_at (pre @ sg @ post) bin_array pc;
                   if kj < ki then swap (pre @ sg @ post) pj pc
                   else Some (pre @ sg @ post) }
            else Some (pre @ sg @ post)) = Some (pre @ sg1 @ post)"
      using jl ix True less.prems(1,3)
      by (simp add: pos bin_at_seg [OF s] swap_seg [OF s] sg1_def)
    have unf: "sift_down (pre @ sg @ post) bin_array start i j
        = sift_down (pre @ sg1 @ post) bin_array start i index"
      by (subst sift_down.simps)
         (simp only: True if_True d i0 i1 choose exchange Option.bind.bind_lunit)
    have "\<exists>sg'. sift_down (pre @ sg1 @ post) bin_array start i index = Some (pre @ sg' @ post) \<and>
               mset sg' = mset sg1 \<and> max_heap (keyf sg' bin_array) i \<and>
               (\<forall>p. i \<le> p \<longrightarrow> keyf sg' bin_array p = keyf sg1 bin_array p) \<and>
               (\<forall>b. keys_below (keyf sg1 bin_array) i b \<longrightarrow> keys_below (keyf sg' bin_array) i b)"
    proof (rule less.hyps)
      show "nat (i - index) < nat (i - j)" using True ix by simp
      show "valid_keys sg1 bin_array" using less.prems(1) by (simp add: valid_keys_mset [OF m1])
      show "0 \<le> index" by (rule ix)
      show "i \<le> int (length sg1)" using less.prems(3) by (simp add: length_mset_eq [OF m1])
      show "down_inv (keyf sg1 bin_array) i index"
        unfolding k1
        by (rule down_inv_step [OF less.prems(4) jl(1) True index_def K1_def])
    qed
    then obtain sg' where r: "sift_down (pre @ sg1 @ post) bin_array start i index = Some (pre @ sg' @ post)"
      "mset sg' = mset sg1" "max_heap (keyf sg' bin_array) i"
      "\<forall>p. i \<le> p \<longrightarrow> keyf sg' bin_array p = K1 p"
      "\<forall>b. keys_below K1 i b \<longrightarrow> keys_below (keyf sg' bin_array) i b"
      unfolding k1 by blast
    note fr = down_step_frame [OF jl(1) True index_def K1_def]
    have f1: "\<forall>p. i \<le> p \<longrightarrow> keyf sg' bin_array p = ?K p"
    proof (intro allI impI)
      fix p assume "i \<le> p"
      with r(4) fr(1) show "keyf sg' bin_array p = ?K p" by (simp only:)
    qed
    have f2: "\<forall>b. keys_below ?K i b \<longrightarrow> keys_below (keyf sg' bin_array) i b"
    proof (intro allI impI)
      fix b assume "keys_below ?K i b"
      with fr(2) have "keys_below K1 i b" by (simp only:)
      with r(5) show "keys_below (keyf sg' bin_array) i b" by (simp only:)
    qed
    have f3: "mset sg' = mset sg" using r(2) m1 by (simp only:)
    show ?thesis
      unfolding unf
      by (rule exI [of _ sg']) (intro conjI r(1) f3 r(3) f1 f2)
  qed
qed

lemma sort_heap_correct:
  assumes s: "int (length pre) = start"
    and fit: "start + n \<le> INT_MAX + 1" "2 * n \<le> INT_MAX + 1"
  shows "valid_keys sg bin_array \<Longrightarrow> n = int (length sg) \<Longrightarrow> i < n \<Longrightarrow>
         max_heap (keyf sg bin_array) (i + 1) \<Longrightarrow>
         (\<forall>p q. i < p \<and> p \<le> q \<and> q < n \<longrightarrow> keyf sg bin_array p \<le> keyf sg bin_array q) \<Longrightarrow>
         (\<forall>p q. 0 \<le> p \<and> p \<le> i \<and> i < q \<and> q < n \<longrightarrow> keyf sg bin_array p \<le> keyf sg bin_array q) \<Longrightarrow>
         \<exists>sg'. sort_heap (pre @ sg @ post) bin_array start i = Some (pre @ sg' @ post) \<and>
               mset sg' = mset sg \<and>
               (\<forall>p q. 0 \<le> p \<and> p \<le> q \<and> q < n \<longrightarrow> keyf sg' bin_array p \<le> keyf sg' bin_array q)"
proof (induction "nat i" arbitrary: i sg rule: less_induct)
  case less
  let ?K = "keyf sg bin_array"
  note suffix = less.prems(5) and prefix = less.prems(6)
  show ?case
  proof (cases "0 < i")
    case False
    have "sort_heap (pre @ sg @ post) bin_array start i = Some (pre @ sg @ post)"
      using False by (subst sort_heap.simps) (simp only: if_False)
    moreover have "?K p \<le> ?K q" if "0 \<le> p \<and> p \<le> q \<and> q < n" for p q
    proof (cases "p = q")
      case True
      then show ?thesis by simp
    next
      case pq: False
      show ?thesis
      proof (cases "i < p")
        case True
        with that suffix show ?thesis by simp
      next
        case ip: False
        with that False pq have "0 \<le> p \<and> p \<le> i \<and> i < q \<and> q < n" by simp
        with prefix show ?thesis by simp
      qed
    qed
    ultimately show ?thesis by (intro exI [of _ sg]) simp
  next
    case True
    from True less.prems(2,3) have il: "0 \<le> i" "i < int (length sg)" and zl: "(0::int) \<le> 0" "0 < int (length sg)"
      by linarith+
    define sg1 where "sg1 = sg[nat i := sg ! nat 0, nat 0 := sg ! nat i]"
    define K1 where "K1 = ?K(0 := ?K i, i := ?K 0)"
    have m1: "mset sg1 = mset sg" unfolding sg1_def by (rule mset_swap_seg [OF zl il])
    have k1: "keyf sg1 bin_array = K1" unfolding sg1_def K1_def by (rule keyf_swap [OF zl il])
    from s have s0: "0 \<le> start" by auto
    have e: "int32 (i + start) = Some (i + start)"
      using il s0 fit less.prems(2,3) INT_MIN_neg by (intro int32_eq) simp_all
    have i': "int32 (i - 1) = Some (i - 1)"
      using True il fit less.prems(2,3) INT_MIN_neg by (intro int32_eq) simp_all
    have sw: "swap (pre @ sg @ post) start (i + start) = Some (pre @ sg1 @ post)"
      using swap_seg [OF s zl il, of post] by (simp add: sg1_def)
    have v1: "valid_keys sg1 bin_array" using less.prems(1) by (simp add: valid_keys_mset [OF m1])
    have l1: "length sg1 = length sg" by (rule length_mset_eq [OF m1])
    have "\<exists>sg2. sift_down (pre @ sg1 @ post) bin_array start i 0 = Some (pre @ sg2 @ post) \<and>
               mset sg2 = mset sg1 \<and> max_heap (keyf sg2 bin_array) i \<and>
               (\<forall>p. i \<le> p \<longrightarrow> keyf sg2 bin_array p = keyf sg1 bin_array p) \<and>
               (\<forall>b. keys_below (keyf sg1 bin_array) i b \<longrightarrow> keys_below (keyf sg2 bin_array) i b)"
    proof (rule sift_down_correct [OF s])
      show "start + i \<le> INT_MAX + 1" "2 * i \<le> INT_MAX" using fit less.prems(3) by simp_all
      show "valid_keys sg1 bin_array" by (rule v1)
      show "(0::int) \<le> 0" by simp
      show "i \<le> int (length sg1)" using il by (simp add: l1)
      show "down_inv (keyf sg1 bin_array) i 0"
        unfolding k1 by (rule down_inv_start [OF less.prems(4) True K1_def])
    qed
    then obtain sg2 where sd: "sift_down (pre @ sg1 @ post) bin_array start i 0 = Some (pre @ sg2 @ post)"
      and m2: "mset sg2 = mset sg1" and h2: "max_heap (keyf sg2 bin_array) i"
      and fr: "\<And>p. i \<le> p \<Longrightarrow> keyf sg2 bin_array p = K1 p"
      and bd: "\<And>b. keys_below K1 i b \<Longrightarrow> keys_below (keyf sg2 bin_array) i b"
      unfolding k1 by blast
    let ?K2 = "keyf sg2 bin_array"
    have root: "?K p \<le> ?K 0" if "0 \<le> p" "p \<le> i" for p
      using heap_root_max [OF less.prems(4), of p] that by simp
    have K1i: "K1 i = ?K 0" and K1z: "K1 0 = ?K i"
      and K1o: "\<And>p. p \<noteq> 0 \<Longrightarrow> p \<noteq> i \<Longrightarrow> K1 p = ?K p"
      using True by (simp_all add: K1_def)
    have b1: "keys_below K1 i (K1 q)" if q: "i \<le> q" "q < n" for q
      unfolding keys_below_def
    proof (intro allI impI)
      fix p assume p: "0 \<le> p \<and> p < i"
      have Kq: "?K p \<le> K1 q \<and> ?K i \<le> K1 q"
      proof (cases "q = i")
        case True
        with p root [of p] root [of i] il show ?thesis by (simp add: K1i)
      next
        case False
        with q True have e: "K1 q = ?K q" by (simp add: K1o)
        from False q p prefix have "?K p \<le> ?K q" "?K i \<le> ?K q" using il by simp_all
        then show ?thesis by (simp add: e)
      qed
      show "K1 p \<le> K1 q"
      proof (cases "p = 0")
        case True
        with Kq show ?thesis by (simp add: K1z)
      next
        case False
        with p Kq show ?thesis by (simp add: K1o)
      qed
    qed
    have "\<exists>sg'. sort_heap (pre @ sg2 @ post) bin_array start (i - 1) = Some (pre @ sg' @ post) \<and>
               mset sg' = mset sg2 \<and>
               (\<forall>p q. 0 \<le> p \<and> p \<le> q \<and> q < n \<longrightarrow> keyf sg' bin_array p \<le> keyf sg' bin_array q)"
    proof (rule less.hyps)
      show "nat (i - 1) < nat i" using True by simp
      show "valid_keys sg2 bin_array" using v1 by (simp add: valid_keys_mset [OF m2])
      show "n = int (length sg2)" using less.prems(2) by (simp add: length_mset_eq [OF m2] l1)
      show "i - 1 < n" using less.prems(3) by simp
      show "max_heap ?K2 (i - 1 + 1)" using h2 by simp
      show "\<forall>p q. i - 1 < p \<and> p \<le> q \<and> q < n \<longrightarrow> ?K2 p \<le> ?K2 q"
      proof (intro allI impI)
        fix p q assume a: "i - 1 < p \<and> p \<le> q \<and> q < n"
        then have e: "?K2 p = K1 p" "?K2 q = K1 q" by (simp_all add: fr)
        show "?K2 p \<le> ?K2 q"
        proof (cases "p = q")
          case True
          then show ?thesis by simp
        next
          case pq: False
          from a pq \<open>0 < i\<close> have q: "q \<noteq> 0" "q \<noteq> i" "i < q" by simp_all
          then have eq: "?K2 q = ?K q" by (simp add: e(2) K1o)
          show ?thesis
          proof (cases "p = i")
            case True
            have ep: "?K2 p = ?K 0" unfolding e(1) unfolding True by (rule K1i)
            from a q il have "?K 0 \<le> ?K q" by (intro prefix [rule_format]) simp
            then show ?thesis by (simp only: ep eq)
          next
            case False
            with a \<open>0 < i\<close> have ep: "?K2 p = ?K p" by (simp add: e(1) K1o)
            from False a have "?K p \<le> ?K q" by (intro suffix [rule_format]) simp
            then show ?thesis by (simp only: ep eq)
          qed
        qed
      qed
      show "\<forall>p q. 0 \<le> p \<and> p \<le> i - 1 \<and> i - 1 < q \<and> q < n \<longrightarrow> ?K2 p \<le> ?K2 q"
      proof (intro allI impI)
        fix p q assume a: "0 \<le> p \<and> p \<le> i - 1 \<and> i - 1 < q \<and> q < n"
        then have "keys_below ?K2 i (K1 q)" by (intro bd b1) simp_all
        with a have "?K2 p \<le> K1 q" by (simp add: keys_below_def)
        moreover from a have "?K2 q = K1 q" by (simp add: fr)
        ultimately show "?K2 p \<le> ?K2 q" by simp
      qed
    qed
    then obtain sg' where r: "sort_heap (pre @ sg2 @ post) bin_array start (i - 1) = Some (pre @ sg' @ post)"
      "mset sg' = mset sg2"
      "\<forall>p q. 0 \<le> p \<and> p \<le> q \<and> q < n \<longrightarrow> keyf sg' bin_array p \<le> keyf sg' bin_array q"
      by blast
    have unf: "sort_heap (pre @ sg @ post) bin_array start i
        = sort_heap (pre @ sg2 @ post) bin_array start (i - 1)"
      by (subst sort_heap.simps [of "pre @ sg @ post"])
         (simp only: True if_True e i' sw sd Option.bind.bind_lunit)
    have m: "mset sg' = mset sg" using r(2) m2 m1 by (simp only:)
    show ?thesis
      unfolding unf by (rule exI [of _ sg']) (intro conjI r(1) m r(3))
  qed
qed

lemma HeapSort_seg:
  assumes s: "int (length pre) = start" and v: "valid_keys sg bin_array"
    and n: "n = int (length sg)"
    and fit: "start + n \<le> INT_MAX + 1" "2 * n \<le> INT_MAX + 1"
  shows "\<exists>sg'. HeapSort (pre @ sg @ post) bin_array start n = Some (pre @ sg' @ post) \<and>
               mset sg' = mset sg \<and>
               (\<forall>p q. 0 \<le> p \<and> p \<le> q \<and> q < n \<longrightarrow> keyf sg' bin_array p \<le> keyf sg' bin_array q)"
proof -
  from n have n0: "0 \<le> n" by simp
  from n0 fit(2) have nfit: "n \<le> INT_MAX" by (simp add: INT_MAX_def)
  have "\<exists>sg1. build_heap (pre @ sg @ post) bin_array start n 1 = Some (pre @ sg1 @ post) \<and>
               mset sg1 = mset sg \<and> max_heap (keyf sg1 bin_array) n"
  proof (rule build_heap_correct [OF s fit(1) nfit v n])
    show "(1::int) \<le> 1" by simp
    show "max_heap (keyf sg bin_array) 1" by (simp add: max_heap_def)
  qed
  then obtain sg1 where b: "build_heap (pre @ sg @ post) bin_array start n 1 = Some (pre @ sg1 @ post)"
    and m1: "mset sg1 = mset sg" and h1: "max_heap (keyf sg1 bin_array) n" by blast
  have i: "int32 (n - 1) = Some (n - 1)"
    using n0 nfit by (intro int32_eq) (simp_all add: INT_MIN_def)
  have "\<exists>sg'. sort_heap (pre @ sg1 @ post) bin_array start (n - 1) = Some (pre @ sg' @ post) \<and>
               mset sg' = mset sg1 \<and>
               (\<forall>p q. 0 \<le> p \<and> p \<le> q \<and> q < n \<longrightarrow> keyf sg' bin_array p \<le> keyf sg' bin_array q)"
  proof (rule sort_heap_correct [OF s fit])
    show "valid_keys sg1 bin_array" using v by (simp add: valid_keys_mset [OF m1])
    show "n = int (length sg1)" using n by (simp add: length_mset_eq [OF m1])
    show "n - 1 < n" by simp
    show "max_heap (keyf sg1 bin_array) (n - 1 + 1)" using h1 by simp
    show "\<forall>p q. n - 1 < p \<and> p \<le> q \<and> q < n \<longrightarrow> keyf sg1 bin_array p \<le> keyf sg1 bin_array q"
      by simp
    show "\<forall>p q. 0 \<le> p \<and> p \<le> n - 1 \<and> n - 1 < q \<and> q < n \<longrightarrow>
            keyf sg1 bin_array p \<le> keyf sg1 bin_array q"
      by simp
  qed
  then obtain sg' where r: "sort_heap (pre @ sg1 @ post) bin_array start (n - 1) = Some (pre @ sg' @ post)"
    "mset sg' = mset sg1"
    "\<forall>p q. 0 \<le> p \<and> p \<le> q \<and> q < n \<longrightarrow> keyf sg' bin_array p \<le> keyf sg' bin_array q"
    by blast
  have "HeapSort (pre @ sg @ post) bin_array start n = Some (pre @ sg' @ post)"
    by (simp add: HeapSort_def b i r(1))
  moreover have "mset sg' = mset sg" using r(2) m1 by simp
  ultimately show ?thesis using r(3) by blast
qed

text \<open>
  An index array whose entries all select the same key: no comparison succeeds, so
  no entry moves, the first loop returns the array as it is, and in the second loop
  \<open>j\<close> runs through \<open>0, 1, 3, 7, \<dots>\<close>, always to the left child.
\<close>

lemma replicate_update_same: "(replicate N x)[k := x] = replicate N x"
proof (cases "k < N")
  case True
  then have "replicate N x ! k = x" by simp
  then show ?thesis by (metis list_update_id)
next
  case False
  then show ?thesis by (intro list_update_beyond) simp
qed

lemma bin_at_const:
  "0 \<le> p \<Longrightarrow> p < int N \<Longrightarrow> bin_at (replicate N 0) [b] p = Some b"
  by (simp add: bin_at_def rd_def)

lemma swap_const:
  "0 \<le> a \<Longrightarrow> a < int N \<Longrightarrow> 0 \<le> c \<Longrightarrow> c < int N \<Longrightarrow>
   swap (replicate N 0) a c = Some (replicate N 0)"
  by (simp add: swap_def rd_def wr_def replicate_update_same)

lemma sift_up_const:
  assumes "j < int N" "int N \<le> INT_MAX"
  shows "sift_up (replicate N 0) [b] 0 j = Some (replicate N 0)"
proof (cases "0 < j")
  case False
  then show ?thesis by (subst sift_up.simps) simp
next
  case True
  from True have q: "0 \<le> (j - 1) div 2" "(j - 1) div 2 < j" by presburger+
  have c: "int32 j = Some j" "int32 (j - 1) = Some (j - 1)"
    "int32 ((j - 1) div 2) = Some ((j - 1) div 2)"
    using True assms q by (simp_all add: int32_def INT_MIN_def)
  have k: "bin_at (replicate N 0) [b] j = Some b"
    "bin_at (replicate N 0) [b] ((j - 1) div 2) = Some b"
    using True assms q by (simp_all add: bin_at_const)
  show ?thesis
    by (subst sift_up.simps) (simp add: True c k)
qed

lemma build_heap_const:
  assumes "n = int N" "n \<le> INT_MAX"
  shows "1 \<le> i \<Longrightarrow> build_heap (replicate N 0) [b] 0 n i = Some (replicate N 0)"
proof (induction "nat (n - i)" arbitrary: i rule: less_induct)
  case less
  show ?case
  proof (cases "i < n")
    case False
    then show ?thesis by (subst build_heap.simps) simp
  next
    case True
    have u: "sift_up (replicate N 0) [b] 0 i = Some (replicate N 0)"
      using True assms by (intro sift_up_const) simp_all
    have i1: "int32 (i + 1) = Some (i + 1)"
      using True less.prems assms by (simp add: int32_def INT_MIN_def)
    have "build_heap (replicate N 0) [b] 0 n (i + 1) = Some (replicate N 0)"
      using True less.prems by (intro less.hyps) simp_all
    then show ?thesis
      by (subst build_heap.simps) (simp add: True u i1)
  qed
qed

lemma sift_down_const_step:
  assumes j: "0 \<le> j" "2 * j + 2 \<le> i" and i: "i < int N" "i \<le> INT_MAX"
  shows "sift_down (replicate N 0) [b] 0 i j = sift_down (replicate N 0) [b] 0 i (2 * j + 1)"
proof -
  have c: "int32 (2 * j) = Some (2 * j)" "int32 (2 * j + 1) = Some (2 * j + 1)"
    "int32 (2 * j + 1 + 1) = Some (2 * j + 1 + 1)" "int32 (2 * j + 1 + 0) = Some (2 * j + 1)"
    "int32 (2 * j + 1 + 1 + 0) = Some (2 * j + 1 + 1)" "int32 (j + 0) = Some j"
    using j i by (simp_all add: int32_def INT_MIN_def)
  have k: "bin_at (replicate N 0) [b] (2 * j + 1) = Some b"
    "bin_at (replicate N 0) [b] j = Some b"
    using j i by (simp_all add: bin_at_const)
  have k2: "2 * j + 1 + 1 < i \<Longrightarrow> bin_at (replicate N 0) [b] (2 * j + 1 + 1) = Some b"
    using j i by (simp add: bin_at_const)
  from j have lt: "j < i" "2 * j + 1 < i" by simp_all
  show ?thesis
  proof (cases "2 * j + 1 + 1 < i")
    case True
    show ?thesis
      by (subst sift_down.simps)
         (simp only: lt True if_True c k k2 [OF True] less_irrefl if_False
            Option.bind.bind_lunit)
  next
    case False
    show ?thesis
      by (subst sift_down.simps)
         (simp only: lt False if_True if_False c k less_irrefl Option.bind.bind_lunit)
  qed
qed

lemma sift_down_const_overflow:
  assumes j: "0 \<le> j" "j < i" "2 * j + 1 = INT_MAX"
  shows "sift_down index_array bin_array start i j = None"
proof -
  have c: "int32 (2 * j) = Some (2 * j)" "int32 (2 * j + 1) = Some (2 * j + 1)"
    "int32 (2 * j + 1 + 1) = None"
    using j by (simp_all add: int32_def INT_MIN_def)
  show ?thesis
    by (subst sift_down.simps)
       (simp only: j(2) if_True c Option.bind.bind_lunit Option.bind.bind_lzero)
qed

lemma sift_down_const_path:
  assumes i: "i = 2 ^ 30" "i < int N"
  shows "k \<le> 30 \<Longrightarrow> sift_down (replicate N 0) [b] 0 i (2 ^ k - 1) = None"
proof (induction "30 - k" arbitrary: k)
  case 0
  then have k: "k = 30" by simp
  show ?case
    unfolding k by (rule sift_down_const_overflow) (simp_all add: i INT_MAX_def)
next
  case (Suc d)
  then have k: "k < 30" "Suc k \<le> 30" "d = 30 - Suc k" by simp_all
  have p: "(1::int) \<le> 2 ^ k" by simp
  have "(2::int) ^ Suc k \<le> 2 ^ 30" using k(2) by (intro power_increasing) simp_all
  then have q: "2 * (2::int) ^ k \<le> 2 ^ 30" by simp
  have "sift_down (replicate N 0) [b] 0 i (2 ^ k - 1)
      = sift_down (replicate N 0) [b] 0 i (2 * (2 ^ k - 1) + 1)"
  proof (rule sift_down_const_step)
    show "(0::int) \<le> 2 ^ k - 1" using p by simp
    show "2 * (2 ^ k - 1) + 2 \<le> i" using q by (simp add: i)
    show "i < int N" by (rule i)
    show "i \<le> INT_MAX" by (simp add: i INT_MAX_def)
  qed
  also have "2 * ((2::int) ^ k - 1) + 1 = 2 ^ Suc k - 1" by simp
  also have "sift_down (replicate N 0) [b] 0 i (2 ^ Suc k - 1) = None"
    by (rule Suc.hyps(1) [OF k(3) k(2)])
  finally show ?case .
qed

lemma HeapSort_const_overflow:
  assumes N: "int N = 2 ^ 30 + 1"
  shows "HeapSort (replicate N 0) [b] 0 (2 ^ 30 + 1) = None"
proof -
  have bh: "build_heap (replicate N 0) [b] 0 (2 ^ 30 + 1) 1 = Some (replicate N 0)"
    by (rule build_heap_const) (simp_all add: N INT_MAX_def)
  have i: "int32 (2 ^ 30 + 1 - 1) = Some (2 ^ 30)"
    by (simp add: int32_def INT_MAX_def INT_MIN_def)
  have e: "int32 (2 ^ 30 + 0) = Some (2 ^ 30)"
    by (simp add: int32_def INT_MAX_def INT_MIN_def)
  have sw: "swap (replicate N 0) 0 (2 ^ 30) = Some (replicate N 0)"
    by (rule swap_const) (simp_all add: N)
  have "sift_down (replicate N 0) [b] 0 (2 ^ 30) (2 ^ 0 - 1) = None"
    by (rule sift_down_const_path) (simp_all add: N)
  then have sd: "sift_down (replicate N 0) [b] 0 (2 ^ 30) 0 = None" by simp
  have "sort_heap (replicate N 0) [b] 0 (2 ^ 30) = None"
    by (subst sort_heap.simps) (simp only: e sw sd Option.bind.bind_lunit Option.bind.bind_lzero, simp)
  then show ?thesis
    by (simp only: HeapSort_def bh i Option.bind.bind_lunit)
qed

lemma HeapSort_position_overflow:
  "HeapSort index_array bin_array (2 ^ 31 - 1) 2 = None"
proof -
  have "sift_up index_array bin_array (2 ^ 31 - 1) 1 = None"
    by (subst sift_up.simps) (simp add: int32_def INT_MAX_def)
  then have "build_heap index_array bin_array (2 ^ 31 - 1) 2 1 = None"
    by (subst build_heap.simps) simp
  then show ?thesis by (simp add: HeapSort_def)
qed

text \<open>
  Claim C10, as stated, fails: with \<open>start = 0\<close> and \<open>n = 2\<^sup>3\<^sup>0 + 1\<close> entries that all
  select the one key of \<open>bin_array\<close>, every access is in bounds, and the second loop
  reaches \<open>j = 2\<^sup>3\<^sup>0 - 1 < i\<close>, sets \<open>index = 2\<^sup>3\<^sup>1 - 1\<close>, the largest \<^verbatim>\<open>int\<close>, and overflows
  in \<^verbatim>\<open>index + 1\<close>; and with \<open>start = 2\<^sup>3\<^sup>1 - 1\<close> and \<open>n = 2\<close> inside an array of
  \<open>2\<^sup>3\<^sup>1 + 1\<close> entries the first loop overflows in \<^verbatim>\<open>j + start\<close>. In both cases the
  call has no result.
\<close>

theorem HeapSort_overflow:
  "0 + (2 ^ 30 + 1) \<le> int (length (replicate (2 ^ 30 + 1) (0::int))) \<and>
   valid_keys (seg (replicate (2 ^ 30 + 1) 0) 0 (2 ^ 30 + 1)) [7] \<and>
   HeapSort (replicate (2 ^ 30 + 1) 0) [7] 0 (2 ^ 30 + 1) = None \<and>
   (2 ^ 31 - 1) + 2 \<le> int (length (replicate (2 ^ 31 + 1) (0::int))) \<and>
   valid_keys (seg (replicate (2 ^ 31 + 1) 0) (2 ^ 31 - 1) 2) [7] \<and>
   HeapSort (replicate (2 ^ 31 + 1) 0) [7] (2 ^ 31 - 1) 2 = None"
proof (intro conjI)
  show "0 + (2 ^ 30 + 1) \<le> int (length (replicate (2 ^ 30 + 1) (0::int)))" by simp
  show "valid_keys (seg (replicate (2 ^ 30 + 1) 0) 0 (2 ^ 30 + 1)) [7]"
    by (simp add: valid_keys_def seg_def)
  show "HeapSort (replicate (2 ^ 30 + 1) 0) [7] 0 (2 ^ 30 + 1) = None"
    by (rule HeapSort_const_overflow) simp
  show "(2 ^ 31 - 1) + 2 \<le> int (length (replicate (2 ^ 31 + 1) (0::int)))" by simp
  show "valid_keys (seg (replicate (2 ^ 31 + 1) 0) (2 ^ 31 - 1) 2) [7]"
    by (simp add: valid_keys_def seg_def)
  show "HeapSort (replicate (2 ^ 31 + 1) 0) [7] (2 ^ 31 - 1) 2 = None"
    by (rule HeapSort_position_overflow)
qed

text \<open>
  Claim C10, amended. For \<^verbatim>\<open>int\<close> values \<open>start \<ge> 0\<close> and \<open>0 \<le> n \<le> 2\<^sup>3\<^sup>0\<close> with
  \<open>start + n \<le> 2\<^sup>3\<^sup>1\<close> (every position of the segment is an \<^verbatim>\<open>int\<close>), the
  segment inside \<open>index_array\<close> and every entry of the segment a valid index of
  \<open>bin_array\<close>, \<open>HeapSort\<close> returns (it ends, no access is out of range and no \<^verbatim>\<open>int\<close>
  overflows) an array of the same length whose segment \<open>start \<le> p < start + n\<close> is a
  permutation of the segment before, with keys in nondecreasing order, and whose
  entries outside the segment are unchanged.
\<close>

theorem HeapSort_sorts:
  assumes s0: "0 \<le> start" and n0: "0 \<le> n"
    and s31: "start < 2 ^ 31" and n30: "n \<le> 2 ^ 30" and sn31: "start + n \<le> 2 ^ 31"
    and len: "start + n \<le> int (length index_array)"
    and inb: "\<forall>p. start \<le> p \<and> p < start + n \<longrightarrow>
                0 \<le> index_array ! nat p \<and> index_array ! nat p < int (length bin_array)"
  shows "\<exists>index_array'.
           HeapSort index_array bin_array start n = Some index_array' \<and>
           length index_array' = length index_array \<and>
           mset (seg index_array' start n) = mset (seg index_array start n) \<and>
           (\<forall>p. 0 \<le> p \<and> p < n - 1 \<longrightarrow>
              bin_array ! nat (index_array' ! nat (start + p))
                \<le> bin_array ! nat (index_array' ! nat (start + p + 1))) \<and>
           (\<forall>q. q < length index_array \<and> (int q < start \<or> start + n \<le> int q) \<longrightarrow>
              index_array' ! q = index_array ! q)"
proof -
  define pre where "pre = take (nat start) index_array"
  define sg where "sg = seg index_array start n"
  define post where "post = drop (nat start + nat n) index_array"
  have decomp: "index_array = pre @ sg @ post"
    unfolding pre_def sg_def post_def seg_def
    by (metis append_take_drop_id drop_drop add.commute)
  from s0 n0 len have lpre: "length pre = nat start" and lsg: "length sg = nat n"
    by (simp_all add: pre_def sg_def seg_def)
  have s: "int (length pre) = start" using s0 by (simp add: lpre)
  have n: "n = int (length sg)" using n0 by (simp add: lsg)
  have v: "valid_keys sg bin_array"
    unfolding valid_keys_def
  proof
    fix x assume "x \<in> set sg"
    then obtain k where k: "k < length sg" "x = sg ! k" by (auto simp: in_set_conv_nth)
    then have "x = index_array ! (nat start + k)"
      using len s0 n0 by (simp add: sg_def seg_def)
    moreover have "nat (start + int k) = nat start + k" using s0 by simp
    moreover from k lsg n0 have "start \<le> start + int k \<and> start + int k < start + n" by simp
    ultimately show "0 \<le> x \<and> x < int (length bin_array)"
      using inb [rule_format, of "start + int k"] by simp
  qed
  have fit: "start + n \<le> INT_MAX + 1" "2 * n \<le> INT_MAX + 1"
    using n30 sn31 by (simp_all add: INT_MAX_def)
  from HeapSort_seg [OF s v n fit, of post]
  obtain sg' where r: "HeapSort index_array bin_array start n = Some (pre @ sg' @ post)"
    and m: "mset sg' = mset sg"
    and srt: "\<And>p q. 0 \<le> p \<Longrightarrow> p \<le> q \<Longrightarrow> q < n \<Longrightarrow> keyf sg' bin_array p \<le> keyf sg' bin_array q"
    unfolding decomp [symmetric] by blast
  have lsg': "length sg' = nat n" using length_mset_eq [OF m] lsg by simp
  let ?ia' = "pre @ sg' @ post"
  have "length ?ia' = length index_array"
    by (subst decomp) (simp add: lsg lsg')
  moreover have "mset (seg ?ia' start n) = mset (seg index_array start n)"
    using m by (simp add: seg_def lpre lsg' sg_def [symmetric, unfolded seg_def])
  moreover have "bin_array ! nat (?ia' ! nat (start + p))
                \<le> bin_array ! nat (?ia' ! nat (start + p + 1))" if p: "0 \<le> p \<and> p < n - 1" for p
  proof -
    have e: "?ia' ! nat (start + q) = sg' ! nat q" if "0 \<le> q" "q < n" for q
    proof -
      from that s0 have "nat (start + q) = length pre + nat q" "nat q < length sg'"
        by (simp_all add: lpre lsg')
      then show ?thesis by (simp add: nth_append)
    qed
    from p have k: "keyf sg' bin_array p = bin_array ! nat (sg' ! nat p)"
      "keyf sg' bin_array (p + 1) = bin_array ! nat (sg' ! nat (p + 1))"
      using n0 by (simp_all add: keyf_def lsg')
    from p have "keyf sg' bin_array p \<le> keyf sg' bin_array (p + 1)" by (intro srt) simp_all
    moreover have "start + p + 1 = start + (p + 1)" by simp
    ultimately show ?thesis using p by (simp only: k e) (simp add: e)
  qed
  moreover have "?ia' ! q = index_array ! q"
    if q: "q < length index_array \<and> (int q < start \<or> start + n \<le> int q)" for q
  proof (cases "int q < start")
    case True
    then have "q < length pre" using s0 by (simp add: lpre)
    then show ?thesis by (subst decomp) (simp add: nth_append)
  next
    case False
    with q have "start + n \<le> int q" by simp
    then have "length pre + length sg \<le> q" using s0 n0 by (simp add: lpre lsg)
    then have "\<not> q < length pre" "\<not> q - length pre < length sg"
      "\<not> q - length pre < length sg'" "length sg' = length sg"
      by (simp_all add: lsg lsg')
    then show ?thesis
      by (subst decomp) (simp add: nth_append)
  qed
  ultimately show ?thesis using r by blast
qed

theorem HeapSort_sorts_witness:
  "(0::int) \<le> 1 \<and> (0::int) \<le> 5 \<and> (1::int) < 2 ^ 31 \<and> (5::int) \<le> 2 ^ 30 \<and>
   (1::int) + 5 \<le> 2 ^ 31 \<and>
   (1::int) + 5 \<le> int (length [9, 4, 2, 0, 3, 1, 7::int]) \<and>
   (\<exists>index_array'.
      HeapSort [9, 4, 2, 0, 3, 1, 7] [5, 3, 9, 1, 7] 1 5 = Some index_array' \<and>
      length index_array' = length [9, 4, 2, 0, 3, 1, 7::int] \<and>
      mset (seg index_array' 1 5) = mset (seg [9, 4, 2, 0, 3, 1, 7] 1 5))"
proof -
  have h: "\<forall>p. 1 \<le> p \<and> p < 1 + 5 \<longrightarrow>
             0 \<le> [9, 4, 2, 0, 3, 1, 7::int] ! nat p \<and>
             [9, 4, 2, 0, 3, 1, 7::int] ! nat p < int (length [5, 3, 9, 1, 7::int])"
  proof (intro allI impI)
    fix p :: int
    assume "1 \<le> p \<and> p < 1 + 5"
    then have "p = 1 \<or> p = 2 \<or> p = 3 \<or> p = 4 \<or> p = 5" by auto
    then show "0 \<le> [9, 4, 2, 0, 3, 1, 7::int] ! nat p \<and>
             [9, 4, 2, 0, 3, 1, 7::int] ! nat p < int (length [5, 3, 9, 1, 7::int])"
      by auto
  qed
  have a: "(0::int) \<le> 1" "(0::int) \<le> 5" "(1::int) < 2 ^ 31" "(5::int) \<le> 2 ^ 30"
    "(1::int) + 5 \<le> 2 ^ 31"
    "(1::int) + 5 \<le> int (length [9, 4, 2, 0, 3, 1, 7::int])"
    by simp_all
  from HeapSort_sorts [OF a h] a show ?thesis by blast
qed

end
